theory Spec2Isabelle
  imports Main "HOL-Library.Word"
begin

unbundle bit_operations_syntax

section \<open>Bytes, errors and little-endian encoding\<close>

type_synonym byte = "8 word"
type_synonym bytes = "byte list"
type_synonym uint32 = "32 word"
type_synonym uint64 = "64 word"

text \<open>
  Go errors are modelled by their cause, the value \<^verbatim>\<open>errors.Is\<close> sees through
  the \<^verbatim>\<open>fmt.Errorf("...: %w", err)\<close> wrappers; the message text is dropped.
  \<open>OutOfBounds\<close> is \<^verbatim>\<open>recordbatch.ErrOutOfBounds\<close>, and, modelled from the spec
  (\<^verbatim>\<open>storage.ErrOutOfBounds\<close> is declared outside the files at hand, and the
  error design has one kind \<open>OutOfBounds\<close>), the error of the coordinator's bounds
  check too; \<open>EOF\<close> and \<open>UnexpectedEOF\<close> are
  the two errors of \<^verbatim>\<open>io.ReadFull\<close>; \<open>AlreadyExists\<close> is the error of the
  object-store writer on an existing cache file; \<open>BackingIO\<close> is any failure
  reported by the file system or by the remote store; \<open>SyntaxError\<close> and
  \<open>RangeError\<close> are the two errors of \<^verbatim>\<open>strconv.ParseUint\<close>; \<open>Panic\<close> is a
  run-time panic (index or slice bound out of range).
\<close>

datatype error =
    OutOfBounds
  | EOF
  | UnexpectedEOF
  | AlreadyExists
  | BackingIO
  | SyntaxError
  | RangeError
  | Panic

text \<open>\<^verbatim>\<open>binary.LittleEndian\<close>: least significant byte first.\<close>

definition le16 :: "16 word \<Rightarrow> bytes" where
  "le16 v = [ucast v, ucast (drop_bit 8 v)]"

definition le32 :: "uint32 \<Rightarrow> bytes" where
  "le32 v = [ucast v, ucast (drop_bit 8 v), ucast (drop_bit 16 v), ucast (drop_bit 24 v)]"

definition le64 :: "uint64 \<Rightarrow> bytes" where
  "le64 v = [ucast v, ucast (drop_bit 8 v), ucast (drop_bit 16 v), ucast (drop_bit 24 v),
             ucast (drop_bit 32 v), ucast (drop_bit 40 v), ucast (drop_bit 48 v),
             ucast (drop_bit 56 v)]"

text \<open>The same encoding for any width: byte \<open>i\<close> is bits \<open>8 * i\<close> and up.\<close>

definition le_bytes :: "nat \<Rightarrow> 'a::len word \<Rightarrow> bytes" where
  "le_bytes k v = map (\<lambda>i. ucast (drop_bit (8 * i) v)) [0..<k]"

text \<open>Decoding reads the bytes present; a missing byte counts as zero (the
  callers only decode buffers that \<^verbatim>\<open>io.ReadFull\<close> has filled).\<close>

fun un_le :: "bytes \<Rightarrow> 'a::len word" where
  "un_le [] = 0"
| "un_le (b # bs) = ucast b OR push_bit 8 (un_le bs)"

fun le32s :: "uint32 list \<Rightarrow> bytes" where
  "le32s [] = []"
| "le32s (v # vs) = le32 v @ le32s vs"

fun un_le32s :: "nat \<Rightarrow> bytes \<Rightarrow> uint32 list" where
  "un_le32s 0 bs = []"
| "un_le32s (Suc n) bs = un_le (take 4 bs) # un_le32s n (drop 4 bs)"

section \<open>The record-batch codec (package recordbatch)\<close>

definition FileFormatMagicBytes :: bytes where
  "FileFormatMagicBytes = [0x73, 0x6D, 0x62, 0x21]"

definition FileFormatVersion :: "16 word" where
  "FileFormatVersion = 1"

definition headerBytes :: nat where
  "headerBytes = 32"

definition recordIndexSize :: nat where
  "recordIndexSize = 4"

record Header =
  MagicBytes :: bytes
  Version :: "16 word"
  UnixEpochUs :: uint64
  NumRecords :: uint32
  Reserved :: bytes

text \<open>\<^verbatim>\<open>binary.Write\<close> of the struct: the fields in declaration order, packed.\<close>

definition encode_header :: "Header \<Rightarrow> bytes" where
  "encode_header h =
     take 4 (MagicBytes h) @ le16 (Version h) @ le64 (UnixEpochUs h)
       @ le32 (NumRecords h) @ take 14 (Reserved h)"

definition decode_header :: "bytes \<Rightarrow> Header" where
  "decode_header bs =
     \<lparr> MagicBytes = take 4 bs,
       Version = un_le (take 2 (drop 4 bs)),
       UnixEpochUs = un_le (take 8 (drop 6 bs)),
       NumRecords = un_le (take 4 (drop 14 bs)),
       Reserved = take 14 (drop 18 bs) \<rparr>"

text \<open>The loop of \<^verbatim>\<open>Write\<close> that fills \<^verbatim>\<open>recordIndexes\<close>: the running
  \<^verbatim>\<open>uint32\<close> offset is stored, then advanced by \<^verbatim>\<open>uint32(len(record))\<close>.\<close>

fun recordIndexes :: "uint32 \<Rightarrow> bytes list \<Rightarrow> uint32 list" where
  "recordIndexes recordIndex [] = []"
| "recordIndexes recordIndex (record # records) =
     recordIndex # recordIndexes (recordIndex + of_nat (length record)) records"

text \<open>An \<^verbatim>\<open>io.Writer\<close> is its \<^verbatim>\<open>Write\<close> method: a step on the state \<open>'w\<close> it
  writes into, returning the error (\<open>None\<close> is \<^verbatim>\<open>nil\<close>).\<close>

type_synonym 'w writer = "bytes \<Rightarrow> 'w \<Rightarrow> error option \<times> 'w"

fun write_records :: "'w writer \<Rightarrow> bytes list \<Rightarrow> 'w \<Rightarrow> error option \<times> 'w" where
  "write_records wtr [] w = (None, w)"
| "write_records wtr (record # records) w =
     (case wtr record w of
        (Some e, w') \<Rightarrow> (Some e, w')
      | (None, w') \<Rightarrow> write_records wtr records w')"

text \<open>\<^verbatim>\<open>Write(wtr, records)\<close>; \<open>now\<close> is the value \<^verbatim>\<open>UnixEpochUs()\<close> returns in
  this call. Every \<^verbatim>\<open>binary.Write\<close> is one call of the writer.\<close>

definition Write :: "'w writer \<Rightarrow> uint64 \<Rightarrow> bytes list \<Rightarrow> 'w \<Rightarrow> error option \<times> 'w" where
  "Write wtr now records w =
     (let header = \<lparr> MagicBytes = FileFormatMagicBytes,
                      Version = FileFormatVersion,
                      UnixEpochUs = now,
                      NumRecords = of_nat (length records),
                      Reserved = replicate 14 0 \<rparr>
      in case wtr (encode_header header) w of
           (Some e, w1) \<Rightarrow> (Some e, w1)
         | (None, w1) \<Rightarrow>
             (case wtr (le32s (recordIndexes 0 records)) w1 of
                (Some e, w2) \<Rightarrow> (Some e, w2)
              | (None, w2) \<Rightarrow> write_records wtr records w2))"

text \<open>An \<^verbatim>\<open>io.ReadSeeker\<close> over a byte sequence: the contents and the offset.\<close>

record reader =
  data :: bytes
  pos :: nat

definition seek :: "reader \<Rightarrow> nat \<Rightarrow> reader" where
  "seek rdr off = rdr\<lparr>pos := off\<rparr>"

text \<open>\<^verbatim>\<open>io.ReadFull\<close>: exactly \<open>n\<close> bytes, \<^verbatim>\<open>io.EOF\<close> when none is left,
  \<^verbatim>\<open>io.ErrUnexpectedEOF\<close> when fewer are; an empty buffer always succeeds.\<close>

definition read_full :: "reader \<Rightarrow> nat \<Rightarrow> error + (bytes \<times> reader)" where
  "read_full rdr n =
     (if n = 0 then Inr ([], rdr)
      else if length (data rdr) \<le> pos rdr then Inl EOF
      else if length (data rdr) < pos rdr + n then Inl UnexpectedEOF
      else Inr (take n (drop (pos rdr) (data rdr)), rdr\<lparr>pos := pos rdr + n\<rparr>))"

text \<open>\<^verbatim>\<open>io.ReadAll\<close>: everything from the offset to the end of the file.\<close>

definition read_all :: "reader \<Rightarrow> error + bytes" where
  "read_all rdr = Inr (drop (pos rdr) (data rdr))"

record RecordBatch =
  Header :: Header
  recordIndex :: "uint32 list"
  rdr :: reader

definition Parse :: "reader \<Rightarrow> error + RecordBatch" where
  "Parse r =
     (case read_full r headerBytes of
        Inl e \<Rightarrow> Inl e
      | Inr (hb, r1) \<Rightarrow>
          (let header = decode_header hb;
               n = unat (NumRecords header)
           in case read_full r1 (recordIndexSize * n) of
                Inl e \<Rightarrow> Inl e
              | Inr (ib, r2) \<Rightarrow>
                  Inr \<lparr> Header = header, recordIndex = un_le32s n ib, rdr = r2 \<rparr>))"

text \<open>\<^verbatim>\<open>RecordBatch.Record\<close>. The file offset is computed in \<^verbatim>\<open>uint32\<close>, as
  the source does; indexing the slice out of range is the run-time panic.\<close>

definition Record :: "RecordBatch \<Rightarrow> uint32 \<Rightarrow> error + bytes" where
  "Record rb i =
     (if NumRecords (Header rb) \<le> i then Inl OutOfBounds
      else if length (recordIndex rb) \<le> unat i then Inl Panic
      else
        (let recordOffset = recordIndex rb ! unat i;
             fileOffset = of_nat headerBytes
                          + NumRecords (Header rb) * of_nat recordIndexSize + recordOffset;
             r = seek (rdr rb) (unat fileOffset)
         in if i = of_nat (length (recordIndex rb) - 1) then read_all r
            else if length (recordIndex rb) \<le> unat (i + 1) then Inl Panic
            else
              (let size = recordIndex rb ! unat (i + 1) - recordOffset
               in case read_full r (unat size) of
                    Inl e \<Rightarrow> Inl e
                  | Inr (buf, r') \<Rightarrow> Inr buf)))"

text \<open>The in-memory sink (a \<^verbatim>\<open>bytes.Buffer\<close>): a write appends and never fails.\<close>

definition buffer_write :: "bytes writer" where
  "buffer_write b buf = (None, buf @ b)"

text \<open>Writing a batch to a buffer, parsing the bytes produced and reading
  record \<open>i\<close> back.\<close>

definition write_parse_record :: "uint64 \<Rightarrow> bytes list \<Rightarrow> nat \<Rightarrow> error + bytes" where
  "write_parse_record now records i =
     (case Write buffer_write now records [] of
        (Some e, out) \<Rightarrow> Inl e
      | (None, out) \<Rightarrow>
          (case Parse \<lparr> data = out, pos = 0 \<rparr> of
             Inl e \<Rightarrow> Inl e
           | Inr rb \<Rightarrow> Record rb (of_nat i)))"

text \<open>The layout of a record-batch file as the format description gives it, to
  be compared with what \<open>Write\<close> emits: the header of a batch of \<open>n\<close> records
  stamped \<open>now\<close>, then the index, then the payloads.\<close>

definition new_header :: "uint64 \<Rightarrow> nat \<Rightarrow> Header" where
  "new_header now n =
     \<lparr> MagicBytes = FileFormatMagicBytes, Version = FileFormatVersion, UnixEpochUs = now,
       NumRecords = of_nat n, Reserved = replicate 14 0 \<rparr>"

definition encode_batch :: "uint64 \<Rightarrow> bytes list \<Rightarrow> bytes" where
  "encode_batch now records =
     encode_header (new_header now (length records))
       @ le32s (recordIndexes 0 records) @ concat records"

text \<open>The offset of record \<open>i\<close> in the payload region as a natural number: the
  sum of the lengths of the records before it.\<close>

definition prefix_sum :: "bytes list \<Rightarrow> nat \<Rightarrow> nat" where
  "prefix_sum records i = sum_list (map length (take i records))"

text \<open>The size of the file a batch encodes to.\<close>

definition batch_size :: "bytes list \<Rightarrow> nat" where
  "batch_size records = headerBytes + recordIndexSize * length records + length (concat records)"

section \<open>Paths and numbers (standard library and go-helpy)\<close>

text \<open>\<^verbatim>\<open>filepath.Join\<close> of two elements: empty elements are ignored, the others
  are joined by a slash. The cleaning \<^verbatim>\<open>Join\<close> applies afterwards is not
  modelled: it is the identity when the first element is a clean path other than
  the root and the second does not start with a slash or a dot.\<close>

definition filepath_Join :: "string \<Rightarrow> string \<Rightarrow> string" where
  "filepath_Join a b = (if a = [] then b else if b = [] then a else a @ ''/'' @ b)"

text \<open>\<^verbatim>\<open>path.Base\<close>: the last element of the path, after removing trailing
  slashes; \<^verbatim>\<open>"."\<close> for the empty path and \<^verbatim>\<open>"/"\<close> for a path of slashes.\<close>

fun strip_trailing_slashes :: "string \<Rightarrow> string" where
  "strip_trailing_slashes [] = []"
| "strip_trailing_slashes (c # cs) =
     (case strip_trailing_slashes cs of
        [] \<Rightarrow> (if c = CHR ''/'' then [] else [c])
      | r \<Rightarrow> c # r)"

fun after_last_slash :: "string \<Rightarrow> string \<Rightarrow> string" where
  "after_last_slash acc [] = acc"
| "after_last_slash acc (c # cs) =
     (if c = CHR ''/'' then after_last_slash [] cs else after_last_slash (acc @ [c]) cs)"

definition path_Base :: "string \<Rightarrow> string" where
  "path_Base path =
     (if path = [] then ''.''
      else (let p = after_last_slash [] (strip_trailing_slashes path)
            in if p = [] then ''/'' else p))"

text \<open>\<^verbatim>\<open>fmt.Sprintf("%012d", n)\<close>: the decimal digits, padded with zeros on the
  left to twelve characters.\<close>

definition digit_char :: "nat \<Rightarrow> char" where
  "digit_char d = ''0123456789'' ! d"

function decimal :: "nat \<Rightarrow> string" where
  "decimal n = (if n < 10 then [digit_char n] else decimal (n div 10) @ [digit_char (n mod 10)])"
  by pat_completeness auto
termination
  by (relation "measure id") auto

declare decimal.simps [simp del]

definition sprintf_012d :: "uint64 \<Rightarrow> string" where
  "sprintf_012d v =
     (let ds = decimal (unat v) in replicate (12 - length ds) CHR ''0'' @ ds)"

text \<open>\<^verbatim>\<open>uint64y.FromString\<close> of go-helpy is \<^verbatim>\<open>strconv.ParseUint(s, 10, 64)\<close>:
  the empty string and any character that is not a decimal digit are a syntax
  error, a value of \<open>2 ^ 64\<close> or more is a range error, reported where the
  scan reaches it.\<close>

fun index_of :: "char \<Rightarrow> string \<Rightarrow> nat \<Rightarrow> nat option" where
  "index_of c [] k = None"
| "index_of c (d # ds) k = (if c = d then Some k else index_of c ds (Suc k))"

definition digit_val :: "char \<Rightarrow> nat option" where
  "digit_val c = index_of c ''0123456789'' 0"

fun parse_digits :: "nat \<Rightarrow> string \<Rightarrow> error + nat" where
  "parse_digits n [] = Inr n"
| "parse_digits n (c # cs) =
     (case digit_val c of
        None \<Rightarrow> Inl SyntaxError
      | Some d \<Rightarrow>
          (if 2 ^ 64 \<le> n * 10 + d then Inl RangeError else parse_digits (n * 10 + d) cs))"

definition FromString :: "string \<Rightarrow> error + uint64" where
  "FromString s =
     (if s = [] then Inl SyntaxError
      else (case parse_digits 0 s of Inl e \<Rightarrow> Inl e | Inr n \<Rightarrow> Inr (of_nat n)))"

section \<open>The storage coordinator (package storage)\<close>

text \<open>The \<^verbatim>\<open>BackingStorage\<close> interface. A method is a step on the state \<open>'w\<close>
  of whatever the implementation stores into; an \<^verbatim>\<open>io.WriteCloser\<close> is its two
  methods; an \<^verbatim>\<open>io.ReadSeekCloser\<close> is a \<open>reader\<close> over the bytes of the file.\<close>

record 'w WriteCloser =
  wc_Write :: "'w writer"
  wc_Close :: "'w \<Rightarrow> error option \<times> 'w"

record 'w BackingStorage =
  Writer :: "string \<Rightarrow> 'w \<Rightarrow> (error + 'w WriteCloser) \<times> 'w"
  Reader :: "string \<Rightarrow> 'w \<Rightarrow> (error + reader) \<times> 'w"
  ListFiles :: "string \<Rightarrow> string \<Rightarrow> 'w \<Rightarrow> (error + string list) \<times> 'w"

text \<open>The fields of \<^verbatim>\<open>Storage\<close> that hold state; the logger is dropped and
  the backing storage is an argument of every operation.\<close>

record Storage =
  topicPath :: string
  nextRecordID :: uint64
  recordBatchIDs :: "uint64 list"

text \<open>Modelled from the spec: the constant \<^verbatim>\<open>recordBatchExtension\<close> is declared
  outside the files at hand; the file-naming convention gives a fixed suffix such
  as \<^verbatim>\<open>.record-batch\<close>.\<close>

definition recordBatchExtension :: string where
  "recordBatchExtension = ''.record-batch''"

definition recordBatchPath :: "string \<Rightarrow> uint64 \<Rightarrow> string" where
  "recordBatchPath tp recordBatchID =
     filepath_Join tp (sprintf_012d recordBatchID @ recordBatchExtension)"

text \<open>\<^verbatim>\<open>AddRecordBatch\<close>. The deferred \<^verbatim>\<open>f.Close()\<close> runs on both returns
  after the writer was opened, and its error is dropped. The result is the
  error, the coordinator after the call and the backing state.\<close>

definition AddRecordBatch ::
  "'w BackingStorage \<Rightarrow> uint64 \<Rightarrow> Storage \<Rightarrow> bytes list \<Rightarrow> 'w \<Rightarrow> error option \<times> Storage \<times> 'w"
where
  "AddRecordBatch B now s records w =
     (let recordBatchID = nextRecordID s;
          rbPath = recordBatchPath (topicPath s) recordBatchID
      in case Writer B rbPath w of
           (Inl e, w1) \<Rightarrow> (Some e, s, w1)
         | (Inr f, w1) \<Rightarrow>
             (case Write (wc_Write f) now records w1 of
                (Some e, w2) \<Rightarrow> (Some e, s, snd (wc_Close f w2))
              | (None, w2) \<Rightarrow>
                  (None,
                   s\<lparr> recordBatchIDs := recordBatchIDs s @ [recordBatchID],
                      nextRecordID := recordBatchID + of_nat (length records) \<rparr>,
                   snd (wc_Close f w2))))"

text \<open>The loop of \<^verbatim>\<open>ReadRecord\<close> over \<^verbatim>\<open>recordBatchIDs\<close> from the end; the
  counter is the source's \<^verbatim>\<open>i + 1\<close>, and \<open>0\<close> is the initial value of
  \<^verbatim>\<open>recordBatchID\<close>.\<close>

fun scan_batches :: "uint64 list \<Rightarrow> nat \<Rightarrow> uint64 \<Rightarrow> uint64" where
  "scan_batches ids 0 recordID = 0"
| "scan_batches ids (Suc i) recordID =
     (let curBatchID = ids ! i
      in if curBatchID \<le> recordID then curBatchID else scan_batches ids i recordID)"

definition ReadRecord ::
  "'w BackingStorage \<Rightarrow> Storage \<Rightarrow> uint64 \<Rightarrow> 'w \<Rightarrow> (error + bytes) \<times> Storage \<times> 'w"
where
  "ReadRecord B s recordID w =
     (if nextRecordID s \<le> recordID then (Inl OutOfBounds, s, w)
      else
        (let recordBatchID = scan_batches (recordBatchIDs s) (length (recordBatchIDs s)) recordID;
             rbPath = recordBatchPath (topicPath s) recordBatchID
         in case Reader B rbPath w of
              (Inl e, w1) \<Rightarrow> (Inl e, s, w1)
            | (Inr f, w1) \<Rightarrow>
                (case Parse f of
                   Inl e \<Rightarrow> (Inl e, s, w1)
                 | Inr rb \<Rightarrow>
                     (case Record rb (ucast (recordID - recordBatchID)) of
                        Inl e \<Rightarrow> (Inl e, s, w1)
                      | Inr record \<Rightarrow> (Inr record, s, w1)))))"

definition readRecordBatchHeader ::
  "'w BackingStorage \<Rightarrow> string \<Rightarrow> uint64 \<Rightarrow> 'w \<Rightarrow> (error + Header) \<times> 'w"
where
  "readRecordBatchHeader B tp recordBatchID w =
     (case Reader B (recordBatchPath tp recordBatchID) w of
        (Inl e, w1) \<Rightarrow> (Inl e, w1)
      | (Inr f, w1) \<Rightarrow>
          (case Parse f of
             Inl e \<Rightarrow> (Inl e, w1)
           | Inr rb \<Rightarrow> (Inr (Header rb), w1)))"

text \<open>The body of the loop of \<^verbatim>\<open>listRecordBatchIDs\<close>: the record ID a file
  path names; slicing a file name shorter than the extension is the run-time
  panic.\<close>

definition parse_recordID :: "string \<Rightarrow> error + uint64" where
  "parse_recordID filePath =
     (let fileName = path_Base filePath
      in if length fileName < length recordBatchExtension then Inl Panic
         else FromString (take (length fileName - length recordBatchExtension) fileName))"

text \<open>The loop itself: the IDs are appended in the order of the paths, and the
  first error ends it.\<close>

fun parse_recordIDs :: "uint64 list \<Rightarrow> string list \<Rightarrow> error + uint64 list" where
  "parse_recordIDs recordIDs [] = Inr recordIDs"
| "parse_recordIDs recordIDs (filePath # filePaths) =
     (case parse_recordID filePath of
        Inl e \<Rightarrow> Inl e
      | Inr recordID \<Rightarrow> parse_recordIDs (recordIDs @ [recordID]) filePaths)"

definition listRecordBatchIDs ::
  "'w BackingStorage \<Rightarrow> string \<Rightarrow> 'w \<Rightarrow> (error + uint64 list) \<times> 'w"
where
  "listRecordBatchIDs B tp w =
     (case ListFiles B tp recordBatchExtension w of
        (Inl e, w1) \<Rightarrow> (Inl e, w1)
      | (Inr filePaths, w1) \<Rightarrow> (parse_recordIDs [] filePaths, w1))"

definition NewStorage ::
  "'w BackingStorage \<Rightarrow> string \<Rightarrow> string \<Rightarrow> 'w \<Rightarrow> (error + Storage) \<times> 'w"
where
  "NewStorage B rootDir topic w =
     (let tp = filepath_Join rootDir topic
      in case listRecordBatchIDs B tp w of
           (Inl e, w1) \<Rightarrow> (Inl e, w1)
         | (Inr ids, w1) \<Rightarrow>
             (let storage = \<lparr> topicPath = tp, nextRecordID = 0, recordBatchIDs = ids \<rparr>
              in if 0 < length ids then
                   (let newestRecordBatchID = ids ! (length ids - 1)
                    in case readRecordBatchHeader B tp newestRecordBatchID w1 of
                         (Inl e, w2) \<Rightarrow> (Inl e, w2)
                       | (Inr hdr, w2) \<Rightarrow>
                           (Inr (storage\<lparr> nextRecordID :=
                                   newestRecordBatchID + ucast (NumRecords hdr) \<rparr>), w2))
                 else (Inr storage, w1)))"

text \<open>A run of \<^verbatim>\<open>AddRecordBatch\<close> calls, each with the clock value of its
  call, that all return \<^verbatim>\<open>nil\<close>; \<open>None\<close> when one of them returns an error.\<close>

fun add_batches ::
  "'w BackingStorage \<Rightarrow> Storage \<Rightarrow> (uint64 \<times> bytes list) list \<Rightarrow> 'w \<Rightarrow> (Storage \<times> 'w) option"
where
  "add_batches B s [] w = Some (s, w)"
| "add_batches B s ((now, records) # rest) w =
     (case AddRecordBatch B now s records w of
        (Some e, s', w') \<Rightarrow> None
      | (None, s', w') \<Rightarrow> add_batches B s' rest w')"

section \<open>The object-store backing with its local cache (S3Storage)\<close>

text \<open>
  What the backing acts on: the local file system (\<open>files\<close>, path to contents),
  the file handles that are open (\<open>handles\<close>, one entry per open handle, named by
  its path), the objects of the bucket in the order the remote store lists them
  (\<open>bucket\<close>), and the outcome of every call that can fail for reasons outside
  the program (\<open>faults\<close>): each such call takes the next entry, \<open>True\<close> makes it
  fail, and a schedule that has run out lets it succeed.
\<close>

record world =
  files :: "string \<rightharpoonup> bytes"
  handles :: "string list"
  bucket :: "(string \<times> bytes) list"
  faults :: "bool list"

definition fault :: "world \<Rightarrow> bool \<times> world" where
  "fault w = (case faults w of [] \<Rightarrow> (False, w) | b # bs \<Rightarrow> (b, w\<lparr>faults := bs\<rparr>))"

record S3Storage =
  topicCacheRoot :: string
  bucketName :: string

record S3StorageInput =
  LocalCacheRoot :: string
  BucketName :: string
  RootDir :: string
  Topic :: string

fun put_object :: "string \<Rightarrow> bytes \<Rightarrow> (string \<times> bytes) list \<Rightarrow> (string \<times> bytes) list" where
  "put_object k v [] = [(k, v)]"
| "put_object k v ((k', v') # kvs) =
     (if k = k' then (k, v) # kvs else (k', v') # put_object k v kvs)"

text \<open>\<^verbatim>\<open>s3.PutObject\<close>, \<^verbatim>\<open>s3.GetObject\<close> and \<^verbatim>\<open>s3.ListObjectsPages\<close> on the one
  bucket of the world.\<close>

definition PutObject :: "string \<Rightarrow> bytes \<Rightarrow> world \<Rightarrow> error option \<times> world" where
  "PutObject key body w =
     (case fault w of
        (True, w1) \<Rightarrow> (Some BackingIO, w1)
      | (False, w1) \<Rightarrow> (None, w1\<lparr>bucket := put_object key body (bucket w1)\<rparr>))"

definition GetObject :: "string \<Rightarrow> world \<Rightarrow> (error + bytes) \<times> world" where
  "GetObject key w =
     (case fault w of
        (True, w1) \<Rightarrow> (Inl BackingIO, w1)
      | (False, w1) \<Rightarrow>
          (case map_of (bucket w1) key of
             None \<Rightarrow> (Inl BackingIO, w1)
           | Some body \<Rightarrow> (Inr body, w1)))"

definition HasPrefix :: "string \<Rightarrow> string \<Rightarrow> bool" where
  "HasPrefix s prefix = (take (length prefix) s = prefix)"

definition HasSuffix :: "string \<Rightarrow> string \<Rightarrow> bool" where
  "HasSuffix s suffix =
     (length suffix \<le> length s \<and> drop (length s - length suffix) s = suffix)"

definition ListObjects :: "string \<Rightarrow> world \<Rightarrow> (error + string list) \<times> world" where
  "ListObjects prefix w =
     (case fault w of
        (True, w1) \<Rightarrow> (Inl BackingIO, w1)
      | (False, w1) \<Rightarrow> (Inr (filter (\<lambda>k. HasPrefix k prefix) (map fst (bucket w1))), w1))"

text \<open>The calls on \<^verbatim>\<open>*os.File\<close>. A handle is named by the path it was opened
  on. \<^verbatim>\<open>Write\<close> appends (the writer's files are new and written in sequence);
  a failed call leaves the contents as they were. \<^verbatim>\<open>Close\<close> releases the handle
  also when it reports an error.\<close>

definition file_Write :: "string \<Rightarrow> bytes \<Rightarrow> world \<Rightarrow> error option \<times> world" where
  "file_Write f b w =
     (case fault w of
        (True, w1) \<Rightarrow> (Some BackingIO, w1)
      | (False, w1) \<Rightarrow>
          (None, w1\<lparr>files := (files w1)(f \<mapsto> (case files w1 f of None \<Rightarrow> b | Some c \<Rightarrow> c @ b))\<rparr>))"

definition file_Seek0 :: "string \<Rightarrow> world \<Rightarrow> error option \<times> world" where
  "file_Seek0 f w =
     (case fault w of
        (True, w1) \<Rightarrow> (Some BackingIO, w1)
      | (False, w1) \<Rightarrow> (None, w1))"

definition file_Close :: "string \<Rightarrow> world \<Rightarrow> error option \<times> world" where
  "file_Close f w =
     (case fault w of
        (True, w1) \<Rightarrow> (Some BackingIO, w1\<lparr>handles := remove1 f (handles w1)\<rparr>)
      | (False, w1) \<Rightarrow> (None, w1\<lparr>handles := remove1 f (handles w1)\<rparr>))"

definition file_contents :: "string \<Rightarrow> world \<Rightarrow> bytes" where
  "file_contents f w = (case files w f of None \<Rightarrow> [] | Some c \<Rightarrow> c)"

definition recordBatchCachePath :: "S3Storage \<Rightarrow> string \<Rightarrow> string" where
  "recordBatchCachePath ss rbPath = filepath_Join (topicCacheRoot ss) rbPath"

text \<open>\<^verbatim>\<open>createCacheFile\<close>: \<^verbatim>\<open>os.MkdirAll\<close>, then \<^verbatim>\<open>os.Create\<close>, which leaves an
  empty file and an open handle.\<close>

definition createCacheFile :: "string \<Rightarrow> world \<Rightarrow> (error + string) \<times> world" where
  "createCacheFile cachePath w =
     (case fault w of
        (True, w1) \<Rightarrow> (Inl BackingIO, w1)
      | (False, w1) \<Rightarrow>
          (case fault w1 of
             (True, w2) \<Rightarrow> (Inl BackingIO, w2)
           | (False, w2) \<Rightarrow>
               (Inr cachePath,
                w2\<lparr>files := (files w2)(cachePath \<mapsto> []),
                   handles := cachePath # handles w2\<rparr>)))"

text \<open>The \<^verbatim>\<open>s3Upload\<close> closure of \<^verbatim>\<open>Writer\<close>: the file, read from its offset
  (zero after the seek) to its end, is put under the key.\<close>

definition s3Upload :: "string \<Rightarrow> string \<Rightarrow> world \<Rightarrow> error option \<times> world" where
  "s3Upload key f w = PutObject key (file_contents f w) w"

definition s3WriteCloser_Write :: "string \<Rightarrow> world writer" where
  "s3WriteCloser_Write f b w = file_Write f b w"

definition s3WriteCloser_Close ::
  "string \<Rightarrow> (string \<Rightarrow> world \<Rightarrow> error option \<times> world) \<Rightarrow> world \<Rightarrow> error option \<times> world"
where
  "s3WriteCloser_Close f upload w =
     (case file_Seek0 f w of
        (Some e, w1) \<Rightarrow> (Some e, w1)
      | (None, w1) \<Rightarrow>
          (case upload f w1 of
             (Some e, w2) \<Rightarrow> (Some e, w2)
           | (None, w2) \<Rightarrow>
               (case file_Close f w2 of
                  (Some e, w3) \<Rightarrow> (Some e, w3)
                | (None, w3) \<Rightarrow> (None, w3))))"

text \<open>\<^verbatim>\<open>filey.Exists\<close> of go-helpy: whether the path names a file.\<close>

definition Exists :: "string \<Rightarrow> world \<Rightarrow> bool" where
  "Exists path w = (files w path \<noteq> None)"

definition S3_Writer :: "S3Storage \<Rightarrow> string \<Rightarrow> world \<Rightarrow> (error + world WriteCloser) \<times> world" where
  "S3_Writer ss rbPath w =
     (let cacheRecordBatchPath = recordBatchCachePath ss rbPath
      in if Exists cacheRecordBatchPath w then (Inl AlreadyExists, w)
         else
           (case createCacheFile cacheRecordBatchPath w of
              (Inl e, w1) \<Rightarrow> (Inl e, w1)
            | (Inr f, w1) \<Rightarrow>
                (Inr \<lparr> wc_Write = s3WriteCloser_Write f,
                       wc_Close = s3WriteCloser_Close f (s3Upload rbPath) \<rparr>, w1)))"

text \<open>\<^verbatim>\<open>Reader\<close>: the cached file when there is one, else the object is fetched
  into a new cache file, which is rewound and returned. \<^verbatim>\<open>os.Open\<close> fails with
  \<^verbatim>\<open>IsNotExist\<close> exactly on a missing file, and with another error on a fault.\<close>

definition S3_Reader :: "S3Storage \<Rightarrow> string \<Rightarrow> world \<Rightarrow> (error + reader) \<times> world" where
  "S3_Reader ss rbPath w =
     (let cacheRecordBatchPath = recordBatchCachePath ss rbPath
      in case fault w of
           (True, w1) \<Rightarrow> (Inl BackingIO, w1)
         | (False, w1) \<Rightarrow>
             (case files w1 cacheRecordBatchPath of
                Some c \<Rightarrow>
                  (Inr \<lparr> data = c, pos = 0 \<rparr>,
                   w1\<lparr>handles := cacheRecordBatchPath # handles w1\<rparr>)
              | None \<Rightarrow>
                  (case GetObject rbPath w1 of
                     (Inl e, w2) \<Rightarrow> (Inl e, w2)
                   | (Inr body, w2) \<Rightarrow>
                       (case createCacheFile cacheRecordBatchPath w2 of
                          (Inl e, w3) \<Rightarrow> (Inl e, w3)
                        | (Inr f, w3) \<Rightarrow>
                            (case file_Write f body w3 of
                               (Some e, w4) \<Rightarrow> (Inl e, w4)
                             | (None, w4) \<Rightarrow>
                                 (case file_Seek0 f w4 of
                                    (Some e, w5) \<Rightarrow> (Inl e, w5)
                                  | (None, w5) \<Rightarrow>
                                      (Inr \<lparr> data = file_contents f w5, pos = 0 \<rparr>, w5)))))))"

text \<open>\<^verbatim>\<open>ListFiles\<close>: one leading slash is cut from the prefix, the keys of the
  bucket under the prefix are listed, and those with the extension are kept.\<close>

definition CutPrefix_slash :: "string \<Rightarrow> string" where
  "CutPrefix_slash s = (case s of [] \<Rightarrow> [] | c # cs \<Rightarrow> if c = CHR ''/'' then cs else s)"

definition S3_ListFiles ::
  "S3Storage \<Rightarrow> string \<Rightarrow> string \<Rightarrow> world \<Rightarrow> (error + string list) \<times> world"
where
  "S3_ListFiles ss tp extension w =
     (case ListObjects (CutPrefix_slash tp) w of
        (Inl e, w1) \<Rightarrow> (Inl e, w1)
      | (Inr keys, w1) \<Rightarrow> (Inr (filter (\<lambda>filePath. HasSuffix filePath extension) keys), w1))"

definition S3_backing :: "S3Storage \<Rightarrow> world BackingStorage" where
  "S3_backing ss =
     \<lparr> Writer = S3_Writer ss, Reader = S3_Reader ss, ListFiles = S3_ListFiles ss \<rparr>"

definition NewS3Storage :: "S3StorageInput \<Rightarrow> world \<Rightarrow> (error + Storage) \<times> world" where
  "NewS3Storage input w =
     NewStorage
       (S3_backing \<lparr> topicCacheRoot = LocalCacheRoot input, bucketName = BucketName input \<rparr>)
       (RootDir input) (Topic input) w"

section \<open>Runs of the coordinator on the object-store backing\<close>

text \<open>The path of the cache file of a batch.\<close>

definition cache_path :: "S3Storage \<Rightarrow> string \<Rightarrow> uint64 \<Rightarrow> string" where
  "cache_path ss tp recordBatchID = recordBatchCachePath ss (recordBatchPath tp recordBatchID)"

text \<open>The record ID of the first record of each batch of a run that starts at
  record \<open>k\<close>.\<close>

fun batch_starts :: "nat \<Rightarrow> bytes list list \<Rightarrow> nat list" where
  "batch_starts k [] = []"
| "batch_starts k (records # rest) = k # batch_starts (k + length records) rest"

text \<open>A run of calls followed by one read during which nothing outside the
  program fails; \<open>None\<close> when a call of the run returns an error.\<close>

definition read_after ::
  "S3Storage \<Rightarrow> Storage \<Rightarrow> (uint64 \<times> bytes list) list \<Rightarrow> world \<Rightarrow> uint64
     \<Rightarrow> (error + bytes) option"
where
  "read_after ss s0 batches w0 recordID =
     (case add_batches (S3_backing ss) s0 batches w0 of
        None \<Rightarrow> None
      | Some (s, w) \<Rightarrow> Some (fst (ReadRecord (S3_backing ss) s recordID (w\<lparr>faults := []\<rparr>))))"

text \<open>The inputs of the examples: a backing, a world with no file, no object and
  no fault, and the coordinator \<^verbatim>\<open>NewStorage\<close> returns when no batch is listed.\<close>

definition example_s3 :: S3Storage where
  "example_s3 = \<lparr> topicCacheRoot = ''cache'', bucketName = ''bucket'' \<rparr>"

definition empty_world :: world where
  "empty_world = \<lparr> files = Map.empty, handles = [], bucket = [], faults = [] \<rparr>"

definition fresh_storage :: "string \<Rightarrow> Storage" where
  "fresh_storage tp = \<lparr> topicPath = tp, nextRecordID = 0, recordBatchIDs = [] \<rparr>"

text \<open>A backing for tests: \<open>ListFiles\<close> returns the given paths in the given
  order, \<open>Reader\<close> serves the given files, \<open>Writer\<close> fails.\<close>

definition fixed_backing :: "string list \<Rightarrow> (string \<times> bytes) list \<Rightarrow> unit BackingStorage" where
  "fixed_backing listing contents =
     \<lparr> Writer = (\<lambda>rbPath w. (Inl BackingIO, w)),
       Reader = (\<lambda>rbPath w.
                  (case map_of contents rbPath of
                     None \<Rightarrow> Inl BackingIO
                   | Some c \<Rightarrow> Inr \<lparr> data = c, pos = 0 \<rparr>, w)),
       ListFiles = (\<lambda>tp extension w. (Inr listing, w)) \<rparr>"

text \<open>Two batch files of a topic: records 0 to 4 and records 5 to 7.\<close>

definition two_files :: "(string \<times> bytes) list" where
  "two_files =
     [(''root/t/000000000000.record-batch'', encode_batch 1 [[0], [1], [2], [3], [4]]),
      (''root/t/000000000005.record-batch'', encode_batch 2 [[5], [6], [7]])]"

text \<open>A world in which the calls up to the seek of the writer's \<^verbatim>\<open>Close\<close>
  succeed (\<^verbatim>\<open>MkdirAll\<close>, \<^verbatim>\<open>Create\<close>, the three writes of a one-record batch,
  the seek) and the upload fails.\<close>

definition upload_fails_world :: world where
  "upload_fails_world =
     \<lparr> files = Map.empty, handles = [], bucket = [],
       faults = [False, False, False, False, False, False, True] \<rparr>"

text \<open>A world with one cache file that a writer holds open, before its
  \<^verbatim>\<open>Close\<close>; \<open>fs\<close> is the fault schedule.\<close>

definition open_file_world :: "bool list \<Rightarrow> world" where
  "open_file_world fs =
     \<lparr> files = [''cache/f'' \<mapsto> [0x41]], handles = [''cache/f''], bucket = [], faults = fs \<rparr>"

section \<open>Properties of the encoding\<close>

lemma bit_un_le:
  "bit (un_le bs :: 'a::len word) n \<longleftrightarrow>
     n < LENGTH('a) \<and> n div 8 < length bs \<and> bit (bs ! (n div 8)) (n mod 8)"
proof (induction bs arbitrary: n)
  case Nil
  then show ?case by simp
next
  case (Cons b bs)
  show ?case
  proof (cases "n < 8")
    case True
    then show ?thesis by (auto simp: bit_simps dest: bit_imp_le_length)
  next
    case False
    then have n: "n = 8 + (n - 8)" by simp
    have d: "n div 8 = Suc ((n - 8) div 8)" and m: "n mod 8 = (n - 8) mod 8"
      using False by (simp_all add: le_div_geq le_mod_geq)
    have "\<not> bit (ucast b :: 'a word) n"
      using False by (auto simp: bit_simps dest: bit_imp_le_length)
    then show ?thesis
      using False Cons.IH [of "n - 8"] by (auto simp: bit_simps d m)
  qed
qed

lemma un_le_le_bytes:
  assumes "LENGTH('a::len) \<le> 8 * k"
  shows "un_le (le_bytes k v) = (v :: 'a word)"
proof (rule bit_word_eqI)
  fix n assume n: "n < LENGTH('a)"
  then have k: "n div 8 < k" using assms by (simp add: less_mult_imp_div_less mult.commute)
  have "8 * (n div 8) + n mod 8 = n" by simp
  then show "bit (un_le (le_bytes k v) :: 'a word) n = bit v n"
    using n k by (simp add: bit_un_le le_bytes_def bit_simps)
qed

lemma le32_eq: "le32 v = le_bytes 4 v" by (simp add: le32_def le_bytes_def upt_rec)
lemma le16_eq: "le16 v = le_bytes 2 v" by (simp add: le16_def le_bytes_def upt_rec)
lemma le64_eq: "le64 v = le_bytes 8 v" by (simp add: le64_def le_bytes_def upt_rec)

lemma un_le_le32: "un_le (le32 v) = (v :: uint32)"
  by (simp add: le32_eq un_le_le_bytes)
lemma un_le_le16: "un_le (le16 v) = (v :: 16 word)"
  by (simp add: le16_eq un_le_le_bytes)
lemma un_le_le64: "un_le (le64 v) = (v :: uint64)"
  by (simp add: le64_eq un_le_le_bytes)

lemma length_le16 [simp]: "length (le16 v) = 2" by (simp add: le16_def)
lemma length_le32 [simp]: "length (le32 v) = 4" by (simp add: le32_def)
lemma length_le64 [simp]: "length (le64 v) = 8" by (simp add: le64_def)

lemma length_le32s [simp]: "length (le32s vs) = 4 * length vs"
  by (induction vs) simp_all

lemma un_le32s_le32s: "un_le32s (length vs) (le32s vs) = vs"
  by (induction vs) (simp_all add: un_le_le32)

lemma length_encode_header:
  "length (MagicBytes h) = 4 \<Longrightarrow> length (Reserved h) = 14 \<Longrightarrow> length (encode_header h) = 32"
  by (simp add: encode_header_def)

lemma decode_encode_header:
  fixes h :: Header
  assumes "length (MagicBytes h) = 4" and "length (Reserved h) = 14"
  shows "decode_header (encode_header h) = h"
  using assms by (simp add: decode_header_def encode_header_def un_le_le16 un_le_le32 un_le_le64)

lemma write_records_buffer:
  "write_records buffer_write records buf = (None, buf @ concat records)"
  by (induction records arbitrary: buf) (simp_all add: buffer_write_def)

lemma Write_buffer:
  "Write buffer_write now records buf = (None, buf @ encode_batch now records)"
  by (simp add: Write_def Let_def buffer_write_def write_records_buffer encode_batch_def new_header_def)

lemma length_recordIndexes [simp]: "length (recordIndexes a records) = length records"
  by (induction records arbitrary: a) simp_all

lemma nth_recordIndexes:
  "i < length records \<Longrightarrow>
     recordIndexes a records ! i = a + of_nat (sum_list (map length (take i records)))"
proof (induction records arbitrary: a i)
  case Nil
  then show ?case by simp
next
  case (Cons r rs)
  then show ?case by (cases i) (simp_all add: add.assoc)
qed

lemma new_header_lengths [simp]:
  "length (MagicBytes (new_header now n)) = 4" "length (Reserved (new_header now n)) = 14"
  "NumRecords (new_header now n) = of_nat n"
  by (simp_all add: new_header_def FileFormatMagicBytes_def)

lemma length_encode_batch:
  "length (encode_batch now records) = 32 + 4 * length records + length (concat records)"
  by (simp add: encode_batch_def length_encode_header)

lemma Parse_encode_batch:
  assumes "length records < 2 ^ 32"
  shows "Parse \<lparr> data = encode_batch now records, pos = 0 \<rparr> =
           Inr \<lparr> Header = new_header now (length records),
                 recordIndex = recordIndexes 0 records,
                 rdr = \<lparr> data = encode_batch now records,
                         pos = 32 + 4 * length records \<rparr> \<rparr>"
proof -
  let ?h = "new_header now (length records)"
  let ?d = "encode_batch now records"
  have n: "unat (of_nat (length records) :: uint32) = length records"
    using assms by (simp add: unat_of_nat)
  have h: "take 32 ?d = encode_header ?h"
    by (simp add: encode_batch_def length_encode_header)
  have r1: "read_full \<lparr> data = ?d, pos = 0 \<rparr> headerBytes =
              Inr (encode_header ?h, \<lparr> data = ?d, pos = 32 \<rparr>)"
    by (simp add: read_full_def headerBytes_def length_encode_batch h)
  have i: "take (4 * length records) (drop 32 ?d) = le32s (recordIndexes 0 records)"
    by (simp add: encode_batch_def length_encode_header)
  have r2: "read_full \<lparr> data = ?d, pos = 32 \<rparr> (recordIndexSize * length records) =
              Inr (le32s (recordIndexes 0 records), \<lparr> data = ?d, pos = 32 + 4 * length records \<rparr>)"
    by (cases "length records = 0")
       (simp_all add: read_full_def recordIndexSize_def length_encode_batch i)
  have u: "un_le32s (length records) (le32s (recordIndexes 0 records)) = recordIndexes 0 records"
    using un_le32s_le32s [of "recordIndexes 0 records"] by simp
  show ?thesis
    by (simp add: Parse_def r1 decode_encode_header Let_def n r2 u)
qed

section \<open>Reading a record of an encoded batch\<close>

lemma concat_split_nth:
  "i < length xss \<Longrightarrow>
     concat xss = concat (take i xss) @ xss ! i @ concat (drop (Suc i) xss)"
  by (metis concat.simps(2) concat_append id_take_nth_drop)

lemma drop_offset_concat:
  assumes "i < length xss"
  shows "drop (sum_list (map length (take i xss))) (concat xss) =
           xss ! i @ concat (drop (Suc i) xss)"
proof -
  have "length (concat (take i xss)) = sum_list (map length (take i xss))"
    by (simp add: length_concat)
  then show ?thesis
    using concat_split_nth [OF assms] by (metis append_eq_conv_conj)
qed

lemma offset_le_total:
  assumes "i < length xss"
  shows "sum_list (map length (take i xss)) + length (xss ! i) \<le> length (concat xss)"
proof -
  have "length (concat xss) = sum_list (map length (take i xss)) + length (xss ! i)
          + length (concat (drop (Suc i) xss))"
    using arg_cong [OF concat_split_nth [OF assms], of length] by (simp add: length_concat)
  then show ?thesis by simp
qed

lemma offset_Suc:
  assumes "i < length xss"
  shows "sum_list (map length (take (Suc i) xss)) =
           sum_list (map length (take i xss)) + length (xss ! i)"
  using assms by (simp add: take_Suc_conv_app_nth)

lemma unat_of_nat32: "n < 2 ^ 32 \<Longrightarrow> unat (of_nat n :: uint32) = n"
  by (simp add: unat_of_nat)

lemma Record_encode_batch:
  assumes fits: "32 + 4 * length records + length (concat records) < 2 ^ 32"
    and i: "i < length records"
  shows "Record \<lparr> Header = new_header now (length records),
                  recordIndex = recordIndexes 0 records,
                  rdr = \<lparr> data = encode_batch now records, pos = p \<rparr> \<rparr> (of_nat i)
         = Inr (records ! i)"
proof -
  let ?N = "length records"
  let ?off = "sum_list (map length (take i records))"
  let ?d = "encode_batch now records"
  let ?rb = "\<lparr> Header = new_header now ?N, recordIndex = recordIndexes 0 records,
               rdr = \<lparr> data = ?d, pos = p \<rparr> \<rparr>"
  have le: "?off + length (records ! i) \<le> length (concat records)"
    by (rule offset_le_total [OF i])
  have ui: "unat (of_nat i :: uint32) = i"
    using fits i by (simp add: unat_of_nat)
  have notoob: "\<not> (of_nat ?N :: uint32) \<le> of_nat i"
    using fits i by (simp add: word_le_nat_alt unat_of_nat)
  have idx: "recordIndexes 0 records ! i = of_nat ?off"
    using nth_recordIndexes [OF i, of 0] by simp
  have fo: "unat (of_nat headerBytes + (of_nat ?N :: uint32) * of_nat recordIndexSize + of_nat ?off)
              = 32 + 4 * ?N + ?off"
  proof -
    have "of_nat headerBytes + (of_nat ?N :: uint32) * of_nat recordIndexSize + of_nat ?off
            = (of_nat (32 + 4 * ?N + ?off) :: uint32)"
      by (simp add: headerBytes_def recordIndexSize_def)
    moreover have "32 + 4 * ?N + ?off < 2 ^ 32" using fits le by simp
    ultimately show ?thesis by (simp only: unat_of_nat32)
  qed
  have dr: "drop (32 + 4 * ?N + ?off) ?d = records ! i @ concat (drop (Suc i) records)"
    using drop_offset_concat [OF i]
    by (simp add: encode_batch_def length_encode_header)
  show ?thesis
  proof (cases "Suc i = ?N")
    case True
    then have last: "(of_nat i :: uint32) = of_nat (?N - 1)"
      by (metis diff_Suc_1)
    have "drop (Suc i) records = []" using True by simp
    then show ?thesis
      using notoob ui i last
      by (simp add: Record_def Let_def idx seek_def read_all_def fo dr del: of_nat_diff)
  next
    case False
    then have si: "Suc i < ?N" using i by simp
    have notlast: "(of_nat i :: uint32) \<noteq> of_nat (?N - 1)"
    proof
      assume "(of_nat i :: uint32) = of_nat (?N - 1)"
      moreover have "?N - 1 < 2 ^ 32" using fits by simp
      then have "unat (of_nat (?N - 1) :: uint32) = ?N - 1" by (rule unat_of_nat32)
      ultimately have "i = ?N - 1" using ui by (simp only:)
      then show False using si by simp
    qed
    have usi: "unat (of_nat i + 1 :: uint32) = Suc i"
    proof -
      have "(of_nat i + 1 :: uint32) = of_nat (Suc i)" by simp
      moreover have "Suc i < 2 ^ 32" using fits si by simp
      ultimately show ?thesis by (simp only: unat_of_nat32)
    qed
    have idx1: "recordIndexes 0 records ! Suc i = of_nat (?off + length (records ! i))"
      using nth_recordIndexes [OF si, of 0] offset_Suc [OF i] by simp
    have sz: "unat (recordIndexes 0 records ! Suc i - recordIndexes 0 records ! i)
                = length (records ! i)"
    proof -
      have "recordIndexes 0 records ! Suc i - recordIndexes 0 records ! i
              = (of_nat (length (records ! i)) :: uint32)"
        by (simp add: idx idx1)
      moreover have "length (records ! i) < 2 ^ 32" using fits le by simp
      ultimately show ?thesis by (simp only: unat_of_nat32)
    qed
    have tk: "take (length (records ! i)) (drop (32 + 4 * ?N + ?off) ?d) = records ! i"
      by (simp add: dr)
    have len: "length ?d = 32 + 4 * ?N + length (concat records)"
      by (rule length_encode_batch)
    have rf: "read_full \<lparr> data = ?d, pos = 32 + 4 * ?N + ?off \<rparr> (length (records ! i))
                = Inr (records ! i, \<lparr> data = ?d, pos = 32 + 4 * ?N + ?off + length (records ! i) \<rparr>)"
    proof (cases "records ! i = []")
      case True
      then show ?thesis by (simp add: read_full_def)
    next
      case False
      then have "0 < length (records ! i)" by simp
      with le have "?off < length (concat records)" by linarith
      with le False show ?thesis by (simp add: read_full_def len tk)
    qed
    show ?thesis
      using notoob ui i si notlast usi
      by (simp add: Record_def Let_def idx seek_def fo sz [unfolded idx] rf del: of_nat_diff)
  qed
qed

lemma recordIndexes_prefix_sums:
  "recordIndexes 0 records = map (\<lambda>i. of_nat (prefix_sum records i)) [0..<length records]"
  by (rule nth_equalityI) (simp_all add: nth_recordIndexes prefix_sum_def)

lemma le32s_concat: "le32s vs = concat (map le32 vs)"
  by (induction vs) simp_all

section \<open>The claims about the codec\<close>

text \<open>
  Claim C7, as amended. For every list of records, \<open>Write\<close> into an empty buffer
  succeeds and emits the 32-byte header (the magic bytes \<open>s\<close>, \<open>m\<close>, \<open>b\<close>, \<open>!\<close>,
  the version 1 in 16 bits, the timestamp in 64 bits, the record count in 32 bits,
  14 zero bytes, all little-endian), then one 32-bit index entry per record, then
  the payloads concatenated without separators. The index entries are the prefix
  sums of the record lengths reduced modulo \<open>2 ^ 32\<close>, as the count field holds
  the number of records modulo \<open>2 ^ 32\<close>. Writing the records \<open>[0x41]\<close> and
  \<open>[0x42, 0x43]\<close> gives a file of 43 bytes with the index \<open>[0, 1]\<close> and the
  payload \<open>0x41 0x42 0x43\<close>.
\<close>

theorem Write_layout:
  "Write buffer_write now records [] =
     (None,
      ([0x73, 0x6D, 0x62, 0x21] @ le16 1 @ le64 now @ le32 (of_nat (length records))
         @ replicate 14 0)
      @ concat (map le32 (recordIndexes 0 records))
      @ concat records)
   \<and> length ([0x73, 0x6D, 0x62, 0x21] @ le16 1 @ le64 now @ le32 (of_nat (length records))
         @ replicate 14 (0 :: byte)) = 32
   \<and> length (recordIndexes 0 records) = length records
   \<and> map unat (recordIndexes 0 records) =
       map (\<lambda>i. prefix_sum records i mod 2 ^ 32) [0..<length records]
   \<and> Write buffer_write now [[0x41], [0x42, 0x43]] [] =
       (None,
        [0x73, 0x6D, 0x62, 0x21, 1, 0] @ le64 now @ [2, 0, 0, 0] @ replicate 14 0
        @ [0, 0, 0, 0, 1, 0, 0, 0] @ [0x41, 0x42, 0x43])
   \<and> length (snd (Write buffer_write now [[0x41], [0x42, 0x43]] [])) = 43"
proof -
  have hdr: "encode_header (new_header now (length records)) =
               [0x73, 0x6D, 0x62, 0x21] @ le16 1 @ le64 now @ le32 (of_nat (length records))
                 @ replicate 14 0"
    by (simp add: encode_header_def new_header_def FileFormatMagicBytes_def FileFormatVersion_def)
  have a: "Write buffer_write now records [] =
     (None,
      ([0x73, 0x6D, 0x62, 0x21] @ le16 1 @ le64 now @ le32 (of_nat (length records))
         @ replicate 14 0)
      @ concat (map le32 (recordIndexes 0 records))
      @ concat records)"
    by (simp only: Write_buffer encode_batch_def hdr le32s_concat append_Nil)
  have b: "map unat (recordIndexes 0 records) =
       map (\<lambda>i. prefix_sum records i mod 2 ^ 32) [0..<length records]"
    by (simp add: recordIndexes_prefix_sums unat_of_nat)
  have c: "Write buffer_write now [[0x41], [0x42, 0x43]] [] =
       (None,
        [0x73, 0x6D, 0x62, 0x21, 1, 0] @ le64 now @ [2, 0, 0, 0] @ replicate 14 0
        @ [0, 0, 0, 0, 1, 0, 0, 0] @ [0x41, 0x42, 0x43])"
    by (simp add: Write_buffer encode_batch_def encode_header_def new_header_def
        FileFormatMagicBytes_def FileFormatVersion_def le16_def le32_def)
  have d: "length (snd (Write buffer_write now [[0x41], [0x42, 0x43]] [])) = 43"
    by (simp add: Write_buffer length_encode_batch)
  show ?thesis using a b c d by simp
qed

text \<open>
  Claim C7 as stated fails on a record of \<open>2 ^ 32\<close> bytes followed by another
  record: the second index entry written is 0, while the prefix sum of the record
  lengths is \<open>2 ^ 32\<close>.
\<close>

theorem Write_layout_counterexample:
  "Write buffer_write 0 [replicate (2 ^ 32) 0, []] [] =
     (None, encode_header (new_header 0 2) @ le32s [0, 0] @ replicate (2 ^ 32) 0)
   \<and> map (prefix_sum [replicate (2 ^ 32) 0, []]) [0, 1] = [0, 2 ^ 32]"
proof -
  define A :: bytes where "A = replicate (2 ^ 32) 0"
  have len: "length A = 2 ^ 32" by (simp add: A_def)
  have two: "length [A, []] = 2" by simp
  have ix: "recordIndexes 0 [A, []] = [0, 0]"
    by (simp add: len)
  have "Write buffer_write 0 [A, []] [] =
          (None, encode_header (new_header 0 2) @ le32s [0, 0] @ A)"
    by (simp only: Write_buffer encode_batch_def ix two) simp
  moreover have "map (prefix_sum [A, []]) [0, 1] = [0, 2 ^ 32]"
    by (simp add: prefix_sum_def len)
  ultimately have "Write buffer_write 0 [A, []] [] =
          (None, encode_header (new_header 0 2) @ le32s [0, 0] @ A)
      \<and> map (prefix_sum [A, []]) [0, 1] = [0, 2 ^ 32]" by (rule conjI)
  then show ?thesis unfolding A_def .
qed

text \<open>
  Claim C2, as amended. For every list of records whose encoded file is shorter
  than \<open>2 ^ 32\<close> bytes (header, index and payloads together) and every index
  \<open>i\<close> below the number of records, writing the list to a buffer, parsing the
  bytes produced and reading record \<open>i\<close> returns \<open>records ! i\<close>. The final
  record is everything from its offset to the end of the file; an earlier record
  is exactly \<open>index[i+1] - index[i]\<close> bytes from its offset, and that
  difference is its length.
\<close>

theorem codec_roundtrip:
  assumes "batch_size records < 2 ^ 32" and "i < length records"
  shows "write_parse_record now records i = Inr (records ! i)
       \<and> (let out = snd (Write buffer_write now records []);
              index = recordIndexes 0 records;
              fileOffset = headerBytes + recordIndexSize * length records + unat (index ! i)
          in if Suc i = length records then drop fileOffset out = records ! i
             else unat (index ! Suc i - index ! i) = length (records ! i)
                  \<and> take (unat (index ! Suc i - index ! i)) (drop fileOffset out) = records ! i)"
proof -
  let ?N = "length records"
  have fits: "32 + 4 * ?N + length (concat records) < 2 ^ 32"
    using assms(1) by (simp add: batch_size_def headerBytes_def recordIndexSize_def)
  then have n: "?N < 2 ^ 32" by simp
  have a: "write_parse_record now records i = Inr (records ! i)"
    by (simp add: write_parse_record_def Write_buffer Parse_encode_batch [OF n]
        Record_encode_batch [OF fits assms(2)])
  let ?off = "sum_list (map length (take i records))"
  have le: "?off + length (records ! i) \<le> length (concat records)"
    by (rule offset_le_total [OF assms(2)])
  have idx: "recordIndexes 0 records ! i = of_nat ?off"
    using nth_recordIndexes [OF assms(2), of 0] by simp
  have "?off < 2 ^ 32" using fits le by simp
  then have uo: "unat (recordIndexes 0 records ! i) = ?off"
    by (simp only: idx unat_of_nat32)
  have dr: "drop (32 + 4 * ?N + ?off) (encode_batch now records)
              = records ! i @ concat (drop (Suc i) records)"
    using drop_offset_concat [OF assms(2)]
    by (simp add: encode_batch_def length_encode_header)
  show ?thesis
  proof (cases "Suc i = ?N")
    case True
    then have "drop (Suc i) records = []" by simp
    then show ?thesis
      using a True by (simp add: Let_def Write_buffer headerBytes_def recordIndexSize_def uo dr)
  next
    case False
    then have si: "Suc i < ?N" using assms(2) by simp
    have "recordIndexes 0 records ! Suc i = of_nat (?off + length (records ! i))"
      using nth_recordIndexes [OF si, of 0] offset_Suc [OF assms(2)] by simp
    then have "recordIndexes 0 records ! Suc i - recordIndexes 0 records ! i
              = (of_nat (length (records ! i)) :: uint32)"
      by (simp add: idx)
    moreover have "length (records ! i) < 2 ^ 32" using fits le by simp
    ultimately have sz: "unat (recordIndexes 0 records ! Suc i - recordIndexes 0 records ! i)
                = length (records ! i)"
      by (simp only: unat_of_nat32)
    show ?thesis
      using a False by (simp add: Let_def Write_buffer headerBytes_def recordIndexSize_def uo dr sz)
  qed
qed

text \<open>The hypotheses of the round trip hold for the two records \<open>[0x41]\<close> and
  \<open>[0x42, 0x43]\<close> and the index 0.\<close>

theorem codec_roundtrip_witness:
  "batch_size [[0x41], [0x42, 0x43]] < 2 ^ 32 \<and> (0::nat) < length [[0x41 :: byte], [0x42, 0x43]]
   \<and> write_parse_record 7 [[0x41], [0x42, 0x43]] 0 = Inr [0x41]"
proof -
  have h1: "batch_size [[0x41], [0x42, 0x43]] < 2 ^ 32"
    by (simp add: batch_size_def headerBytes_def recordIndexSize_def)
  have h2: "(0::nat) < length [[0x41 :: byte], [0x42, 0x43]]" by simp
  show ?thesis using h1 h2 codec_roundtrip [OF h1 h2, of 7] by simp
qed

text \<open>
  Claim C2 as stated fails on a record of \<open>2 ^ 32\<close> bytes followed by a
  one-byte record: the index entries are both 0, so reading record 0 returns the
  empty byte sequence.
\<close>

theorem codec_roundtrip_counterexample:
  "write_parse_record 0 [replicate (2 ^ 32) 0, [1]] 0 = Inr []
   \<and> write_parse_record 0 [replicate (2 ^ 32) 0, [1]] 0
       \<noteq> Inr ([replicate (2 ^ 32) 0, [1]] ! 0)"
proof -
  define A :: bytes where "A = replicate (2 ^ 32) 0"
  have len: "length A = 2 ^ 32" by (simp add: A_def)
  have ne: "A \<noteq> []" using len by auto
  have n: "length [A, [1]] < 2 ^ 32" by simp
  have ix: "recordIndexes 0 [A, [1]] = [0, 0]"
    by (simp add: len)
  have "Record \<lparr> Header = new_header 0 (length [A, [1]]),
                  recordIndex = recordIndexes 0 [A, [1]],
                  rdr = \<lparr> data = encode_batch 0 [A, [1]],
                          pos = 32 + 4 * length [A, [1]] \<rparr> \<rparr> (of_nat 0) = Inr []"
    unfolding ix by (simp add: Record_def Let_def read_full_def seek_def)
  then have "write_parse_record 0 [A, [1]] 0 = Inr []"
    by (simp only: write_parse_record_def Write_buffer Parse_encode_batch [OF n]
        append_Nil prod.case option.case sum.case)
  then have "write_parse_record 0 [A, [1]] 0 = Inr []
      \<and> write_parse_record 0 [A, [1]] 0 \<noteq> Inr ([A, [1]] ! 0)"
    using ne by simp
  then show ?thesis unfolding A_def .
qed

section \<open>Properties of the object-store backing\<close>

lemma fault_frame [simp]:
  "files (snd (fault w)) = files w" "handles (snd (fault w)) = handles w"
  "bucket (snd (fault w)) = bucket w"
  by (simp_all add: fault_def split: list.splits)

lemma fault_no_faults [simp]: "faults w = [] \<Longrightarrow> fault w = (False, w)"
  by (simp add: fault_def)

lemma Write_as_write_records:
  "Write wtr now records w =
     write_records wtr
       (encode_header (new_header now (length records))
          # le32s (recordIndexes 0 records) # records) w"
  by (simp add: Write_def new_header_def Let_def split: prod.splits option.splits)

lemma file_Write_ok:
  assumes "file_Write f b w = (None, w')"
  shows "files w' = (files w)(f \<mapsto> (case files w f of None \<Rightarrow> b | Some c \<Rightarrow> c @ b))
       \<and> handles w' = handles w \<and> bucket w' = bucket w"
proof -
  obtain flt w1 where f: "fault w = (flt, w1)" by (cases "fault w")
  have "files w1 = files w" "handles w1 = handles w" "bucket w1 = bucket w"
    using fault_frame [of w] f by simp_all
  then show ?thesis using assms f by (cases flt) (auto simp: file_Write_def)
qed

lemma write_records_s3:
  assumes "write_records (s3WriteCloser_Write f) bs w = (None, w')" and "files w f = Some c"
  shows "files w' = (files w)(f \<mapsto> c @ concat bs)
       \<and> handles w' = handles w \<and> bucket w' = bucket w"
  using assms
proof (induction bs arbitrary: w c)
  case Nil
  then show ?case by auto
next
  case (Cons b bs)
  obtain e w1 where s: "s3WriteCloser_Write f b w = (e, w1)"
    by (cases "s3WriteCloser_Write f b w")
  with Cons.prems(1) have e: "e = None" and r: "write_records (s3WriteCloser_Write f) bs w1 = (None, w')"
    by (auto split: option.splits)
  from s e have fw: "file_Write f b w = (None, w1)" by (simp add: s3WriteCloser_Write_def)
  from file_Write_ok [OF fw] Cons.prems(2)
  have w1: "files w1 = (files w)(f \<mapsto> c @ b)" "handles w1 = handles w" "bucket w1 = bucket w"
    by simp_all
  then have "files w1 f = Some (c @ b)" by simp
  from Cons.IH [OF r this]
  have i: "files w' = (files w1)(f \<mapsto> (c @ b) @ concat bs)
         \<and> handles w' = handles w1 \<and> bucket w' = bucket w1" .
  have "(files w1)(f \<mapsto> (c @ b) @ concat bs) = (files w)(f \<mapsto> c @ concat (b # bs))"
    by (simp add: w1(1))
  with i w1 show ?case by (simp only:)
qed

lemma PutObject_frame [simp]:
  "files (snd (PutObject k v w)) = files w"
  by (cases "fault w") (auto simp: PutObject_def fault_frame [of w, simplified] split: bool.splits
       dest: arg_cong [where f = "\<lambda>p. files (snd p)"])

lemma s3WriteCloser_Close_files [simp]:
  "files (snd (s3WriteCloser_Close f (s3Upload key) w)) = files w"
proof -
  have a: "\<And>w. files (snd (file_Seek0 f w)) = files w"
    subgoal for w using fault_frame(1) [of w]
      by (cases "fault w") (auto simp: file_Seek0_def split: bool.splits) done
  have b: "\<And>w. files (snd (file_Close f w)) = files w"
    subgoal for w using fault_frame(1) [of w]
      by (cases "fault w") (auto simp: file_Close_def split: bool.splits) done
  have c: "\<And>w. files (snd (s3Upload key f w)) = files w"
    by (simp add: s3Upload_def)
  obtain e1 w1 where s1: "file_Seek0 f w = (e1, w1)" by (cases "file_Seek0 f w")
  obtain e2 w2 where s2: "s3Upload key f w1 = (e2, w2)" by (cases "s3Upload key f w1")
  obtain e3 w3 where s3: "file_Close f w2 = (e3, w3)" by (cases "file_Close f w2")
  have "files w1 = files w" using a [of w] s1 by simp
  moreover have "files w2 = files w1" using c [of w1] s2 by simp
  moreover have "files w3 = files w2" using b [of w2] s3 by simp
  ultimately show ?thesis
    by (simp add: s3WriteCloser_Close_def s1 s2 s3 split: option.splits)
qed

lemma createCacheFile_ok:
  assumes "createCacheFile p w = (Inr f, w')"
  shows "f = p \<and> files w' = (files w)(p \<mapsto> [])"
proof -
  obtain a w1 where f1: "fault w = (a, w1)" by (cases "fault w")
  obtain b w2 where f2: "fault w1 = (b, w2)" by (cases "fault w1")
  have "files w1 = files w" using fault_frame(1) [of w] f1 by simp
  moreover have "files w2 = files w1" using fault_frame(1) [of w1] f2 by simp
  ultimately show ?thesis
    using assms f1 f2 by (auto simp: createCacheFile_def split: bool.splits)
qed

lemma S3_Writer_ok:
  assumes "S3_Writer ss rbPath w = (Inr wc, w')"
  shows "files w (recordBatchCachePath ss rbPath) = None
       \<and> files w' = (files w)(recordBatchCachePath ss rbPath \<mapsto> [])
       \<and> wc = \<lparr> wc_Write = s3WriteCloser_Write (recordBatchCachePath ss rbPath),
                 wc_Close = s3WriteCloser_Close (recordBatchCachePath ss rbPath) (s3Upload rbPath) \<rparr>"
proof -
  let ?p = "recordBatchCachePath ss rbPath"
  have ne: "\<not> Exists ?p w"
    using assms by (auto simp: S3_Writer_def Let_def)
  obtain r w1 where c: "createCacheFile ?p w = (r, w1)" by (cases "createCacheFile ?p w")
  with assms ne obtain f where r: "r = Inr f" and w1: "w1 = w'"
    and wc: "wc = \<lparr> wc_Write = s3WriteCloser_Write f,
                     wc_Close = s3WriteCloser_Close f (s3Upload rbPath) \<rparr>"
    by (cases r) (auto simp: S3_Writer_def Let_def)
  from createCacheFile_ok [OF c [unfolded r]] have "f = ?p" "files w1 = (files w)(?p \<mapsto> [])"
    by simp_all
  then show ?thesis using ne wc w1 by (simp add: Exists_def)
qed

lemma AddRecordBatch_S3_ok:
  assumes "AddRecordBatch (S3_backing ss) now s records w = (None, s', w')"
  shows "files w (recordBatchCachePath ss (recordBatchPath (topicPath s) (nextRecordID s))) = None
       \<and> files w' = (files w)(recordBatchCachePath ss (recordBatchPath (topicPath s) (nextRecordID s))
                        \<mapsto> encode_batch now records)
       \<and> s' = s\<lparr> recordBatchIDs := recordBatchIDs s @ [nextRecordID s],
                  nextRecordID := nextRecordID s + of_nat (length records) \<rparr>"
proof -
  let ?rb = "recordBatchPath (topicPath s) (nextRecordID s)"
  let ?p = "recordBatchCachePath ss ?rb"
  obtain r w1 where wr: "S3_Writer ss ?rb w = (r, w1)" by (cases "S3_Writer ss ?rb w")
  with assms obtain wc where r: "r = Inr wc"
    by (cases r) (auto simp: AddRecordBatch_def S3_backing_def Let_def)
  note ok = S3_Writer_ok [OF wr [unfolded r]]
  then have wc: "wc_Write wc = s3WriteCloser_Write ?p"
    "wc_Close wc = s3WriteCloser_Close ?p (s3Upload ?rb)" by simp_all
  obtain e w2 where wt: "Write (s3WriteCloser_Write ?p) now records w1 = (e, w2)"
    by (cases "Write (s3WriteCloser_Write ?p) now records w1")
  with assms wr r wc have e: "e = None"
    and s': "s' = s\<lparr> recordBatchIDs := recordBatchIDs s @ [nextRecordID s],
                     nextRecordID := nextRecordID s + of_nat (length records) \<rparr>"
    and w': "w' = snd (s3WriteCloser_Close ?p (s3Upload ?rb) w2)"
    by (auto simp: AddRecordBatch_def S3_backing_def Let_def split: option.splits)
  have f1: "files w1 ?p = Some []" using ok by simp
  have "files w2 = (files w1)(?p \<mapsto> [] @ concat
          (encode_header (new_header now (length records))
             # le32s (recordIndexes 0 records) # records))"
    using write_records_s3 [OF wt [unfolded e Write_as_write_records] f1] by simp
  then have "files w2 = (files w)(?p \<mapsto> encode_batch now records)"
    using ok by (simp add: encode_batch_def)
  then show ?thesis using ok s' w' by simp
qed

lemma AddRecordBatch_error_keeps_state:
  assumes "AddRecordBatch B now s records w = (Some e, s', w')"
  shows "s' = s"
  using assms
  by (auto simp: AddRecordBatch_def Let_def split: prod.splits sum.splits option.splits)

lemma ReadRecord_state: "fst (snd (ReadRecord B s recordID w)) = s"
  by (simp add: ReadRecord_def Let_def split: prod.splits sum.splits)

lemma ReadRecord_out_of_bounds:
  "nextRecordID s \<le> recordID \<Longrightarrow> fst (ReadRecord B s recordID w) = Inl OutOfBounds"
  by (simp add: ReadRecord_def)

lemma S3_Reader_cached:
  assumes "faults w = []" and "files w (recordBatchCachePath ss rbPath) = Some c"
  shows "fst (S3_Reader ss rbPath w) = Inr \<lparr> data = c, pos = 0 \<rparr>"
  using assms by (simp add: S3_Reader_def Let_def)

lemma ucast_of_nat_64_32: "(ucast (of_nat n :: uint64) :: uint32) = of_nat n"
  by (simp add: unsigned_of_nat word_of_nat_eq_iff)

section \<open>Locating the batch of a record\<close>

lemma length_batch_starts [simp]: "length (batch_starts k rss) = length rss"
  by (induction rss arbitrary: k) simp_all

lemma nth_batch_starts:
  "j < length rss \<Longrightarrow> batch_starts k rss ! j = k + length (concat (take j rss))"
proof (induction rss arbitrary: k j)
  case Nil
  then show ?case by simp
next
  case (Cons rs rss)
  then show ?case by (cases j) simp_all
qed

lemma batch_starts_shift:
  "batch_starts (a + k) rss = map (\<lambda>x. a + x) (batch_starts k rss)"
  by (induction rss arbitrary: k) (simp_all add: add.assoc)

lemma concat_take_mono:
  "j \<le> k \<Longrightarrow> length (concat (take j rss)) \<le> length (concat (take k rss))"
proof -
  assume "j \<le> k"
  then have "take k rss = take j rss @ take (k - j) (drop j rss)"
    by (metis le_add_diff_inverse take_add)
  then show ?thesis by simp
qed

lemma concat_take_Suc:
  "j < length rss \<Longrightarrow>
     length (concat (take (Suc j) rss)) = length (concat (take j rss)) + length (rss ! j)"
  by (simp add: take_Suc_conv_app_nth)

lemma concat_take_le_total: "length (concat (take j rss)) \<le> length (concat rss)"
  using concat_take_mono [of j "max j (length rss)" rss] by simp

text \<open>The batch that holds the \<open>i\<close>-th record of the concatenation.\<close>

lemma concat_nth_batch:
  assumes "i < length (concat rss)"
  shows "\<exists>j < length rss. length (concat (take j rss)) \<le> i
           \<and> i < length (concat (take j rss)) + length (rss ! j)
           \<and> concat rss ! i = rss ! j ! (i - length (concat (take j rss)))"
  using assms
proof (induction rss rule: rev_induct)
  case Nil
  then show ?case by simp
next
  case (snoc rs rss)
  show ?case
  proof (cases "i < length (concat rss)")
    case True
    from snoc.IH [OF True] obtain j where j: "j < length rss"
      "length (concat (take j rss)) \<le> i"
      "i < length (concat (take j rss)) + length (rss ! j)"
      "concat rss ! i = rss ! j ! (i - length (concat (take j rss)))" by blast
    then show ?thesis
      using True by (intro exI [of _ j]) (simp add: nth_append)
  next
    case False
    then show ?thesis
      using snoc.prems by (intro exI [of _ "length rss"]) (simp add: nth_append)
  qed
qed

lemma scan_batches_found:
  assumes "j < n" and "n \<le> length ids" and "ids ! j \<le> r"
    and "\<And>k. j < k \<Longrightarrow> k < n \<Longrightarrow> \<not> ids ! k \<le> r"
  shows "scan_batches ids n r = ids ! j"
  using assms
proof (induction n)
  case 0
  then show ?case by simp
next
  case (Suc n)
  show ?case
  proof (cases "j = n")
    case True
    then show ?thesis using Suc.prems(3) by (simp add: Let_def)
  next
    case False
    then have jn: "j < n" using Suc.prems(1) by simp
    have "\<not> ids ! n \<le> r" using Suc.prems(4) [of n] jn by simp
    moreover have "scan_batches ids n r = ids ! j"
      using Suc.IH [OF jn] Suc.prems by simp
    ultimately show ?thesis by (simp add: Let_def)
  qed
qed

lemma unat_of_nat64: "n < 2 ^ 64 \<Longrightarrow> unat (of_nat n :: uint64) = n"
  by (simp add: unat_of_nat)

lemma of_nat64_le: "a < 2 ^ 64 \<Longrightarrow> b < 2 ^ 64 \<Longrightarrow> (of_nat a :: uint64) \<le> of_nat b \<longleftrightarrow> a \<le> b"
  by (simp add: word_le_nat_alt unat_of_nat64)

section \<open>Runs of successful calls\<close>

lemma add_batches_S3:
  assumes "add_batches (S3_backing ss) s bs w = Some (s', w')"
  shows "topicPath s' = topicPath s
       \<and> nextRecordID s' = nextRecordID s + of_nat (length (concat (map snd bs)))
       \<and> recordBatchIDs s' =
           recordBatchIDs s @ map (\<lambda>k. nextRecordID s + of_nat k) (batch_starts 0 (map snd bs))
       \<and> (\<forall>p c. files w p = Some c \<longrightarrow> files w' p = Some c)
       \<and> (\<forall>j < length bs.
             files w' (cache_path ss (topicPath s)
                         (nextRecordID s + of_nat (batch_starts 0 (map snd bs) ! j)))
               = Some (encode_batch (fst (bs ! j)) (snd (bs ! j))))"
  using assms
proof (induction bs arbitrary: s w)
  case Nil
  then show ?case by simp
next
  case (Cons b rest)
  obtain now rs where b: "b = (now, rs)" by (cases b)
  obtain e s1 w1 where a: "AddRecordBatch (S3_backing ss) now s rs w = (e, s1, w1)"
    by (cases "AddRecordBatch (S3_backing ss) now s rs w")
  with Cons.prems b have e: "e = None"
    and r: "add_batches (S3_backing ss) s1 rest w1 = Some (s', w')"
    by (auto split: option.splits)
  let ?p = "cache_path ss (topicPath s) (nextRecordID s)"
  from AddRecordBatch_S3_ok [OF a [unfolded e]]
  have new: "files w ?p = None"
    and w1: "files w1 = (files w)(?p \<mapsto> encode_batch now rs)"
    and s1: "s1 = s\<lparr> recordBatchIDs := recordBatchIDs s @ [nextRecordID s],
                     nextRecordID := nextRecordID s + of_nat (length rs) \<rparr>"
    by (simp_all add: cache_path_def)
  note ih = Cons.IH [OF r]
  have tp: "topicPath s' = topicPath s" using ih s1 by simp
  have nx: "nextRecordID s' = nextRecordID s + of_nat (length (concat (map snd (b # rest))))"
    using ih s1 b by (simp add: add.assoc)
  have sh: "batch_starts (length rs) (map snd rest)
              = map (\<lambda>x. length rs + x) (batch_starts 0 (map snd rest))"
    using batch_starts_shift [of "length rs" 0 "map snd rest"] by simp
  have ids: "recordBatchIDs s' = recordBatchIDs s
               @ map (\<lambda>k. nextRecordID s + of_nat k) (batch_starts 0 (map snd (b # rest)))"
    using ih s1 b by (simp add: sh o_def add.assoc)
  have keep1: "\<And>p c. files w p = Some c \<Longrightarrow> files w1 p = Some c"
  proof -
    fix p c assume "files w p = Some c"
    then have "p \<noteq> ?p" using new by auto
    then show "files w1 p = Some c" using w1 \<open>files w p = Some c\<close> by simp
  qed
  have keep: "\<forall>p c. files w p = Some c \<longrightarrow> files w' p = Some c"
    using keep1 ih by blast
  have fl: "\<forall>j < length (b # rest).
             files w' (cache_path ss (topicPath s)
                         (nextRecordID s + of_nat (batch_starts 0 (map snd (b # rest)) ! j)))
               = Some (encode_batch (fst ((b # rest) ! j)) (snd ((b # rest) ! j)))"
  proof (intro allI impI)
    fix j assume j: "j < length (b # rest)"
    show "files w' (cache_path ss (topicPath s)
                         (nextRecordID s + of_nat (batch_starts 0 (map snd (b # rest)) ! j)))
               = Some (encode_batch (fst ((b # rest) ! j)) (snd ((b # rest) ! j)))"
    proof (cases j)
      case 0
      have "files w1 ?p = Some (encode_batch now rs)" using w1 by simp
      then have "files w' ?p = Some (encode_batch now rs)" using ih by blast
      then show ?thesis using 0 b by simp
    next
      case (Suc j')
      then have j': "j' < length rest" using j by simp
      from ih j' have "files w' (cache_path ss (topicPath s1)
                         (nextRecordID s1 + of_nat (batch_starts 0 (map snd rest) ! j')))
               = Some (encode_batch (fst (rest ! j')) (snd (rest ! j')))" by blast
      then show ?thesis
        using Suc b s1 j' by (simp add: sh add.assoc)
    qed
  qed
  show ?case using tp nx ids keep fl by blast
qed

lemma ReadRecord_via:
  assumes "\<not> nextRecordID s \<le> recordID"
    and "scan_batches (recordBatchIDs s) (length (recordBatchIDs s)) recordID = b"
    and "fst (Reader B (recordBatchPath (topicPath s) b) w) = Inr f"
    and "Parse f = Inr rb"
  shows "fst (ReadRecord B s recordID w) = Record rb (ucast (recordID - b))"
  using assms
  by (cases "Reader B (recordBatchPath (topicPath s) b) w")
     (auto simp: ReadRecord_def Let_def split: sum.splits)

lemma read_after_run:
  assumes run: "add_batches (S3_backing ss) s0 bs w0 = Some (s, w)"
    and s0: "nextRecordID s0 = 0" "recordBatchIDs s0 = []"
    and fits: "\<forall>b \<in> set bs. batch_size (snd b) < 2 ^ 32"
    and total: "length (concat (map snd bs)) < 2 ^ 64"
    and i: "i < length (concat (map snd bs))"
  shows "\<exists>j < length bs.
      scan_batches (recordBatchIDs s) (length (recordBatchIDs s)) (of_nat i) = recordBatchIDs s ! j
    \<and> recordBatchIDs s ! j = Max {c \<in> set (recordBatchIDs s). c \<le> of_nat i}
    \<and> unat (recordBatchIDs s ! j) \<le> i
    \<and> i - unat (recordBatchIDs s ! j) < length (snd (bs ! j))
    \<and> files w (cache_path ss (topicPath s) (recordBatchIDs s ! j))
        = Some (encode_batch (fst (bs ! j)) (snd (bs ! j)))
    \<and> snd (bs ! j) ! (i - unat (recordBatchIDs s ! j)) = concat (map snd bs) ! i
    \<and> fst (ReadRecord (S3_backing ss) s (of_nat i) (w\<lparr>faults := []\<rparr>))
        = Inr (concat (map snd bs) ! i)"
proof -
  let ?rss = "map snd bs"
  let ?N = "length (concat ?rss)"
  let ?st = "\<lambda>j. length (concat (take j ?rss))"
  let ?ids = "recordBatchIDs s"
  note inv = add_batches_S3 [OF run]
  have tp: "topicPath s = topicPath s0" using inv by blast
  have nx: "nextRecordID s = of_nat ?N" using inv s0 by simp
  have ids: "?ids = map of_nat (batch_starts 0 ?rss)" using inv s0 by simp
  have len: "length ?ids = length bs" by (simp add: ids)
  have idj: "\<And>j. j < length bs \<Longrightarrow> ?ids ! j = of_nat (?st j)"
    by (simp add: ids nth_batch_starts)
  have stN: "\<And>j. ?st j < 2 ^ 64"
    using concat_take_le_total [of _ ?rss] total by (meson le_less_trans)
  have fl: "\<And>j. j < length bs \<Longrightarrow>
              files w (cache_path ss (topicPath s) (?ids ! j))
                = Some (encode_batch (fst (bs ! j)) (snd (bs ! j)))"
  proof -
    fix j assume j: "j < length bs"
    with inv have "files w (cache_path ss (topicPath s0)
                         (nextRecordID s0 + of_nat (batch_starts 0 ?rss ! j)))
               = Some (encode_batch (fst (bs ! j)) (snd (bs ! j)))" by blast
    then show "files w (cache_path ss (topicPath s) (?ids ! j))
                = Some (encode_batch (fst (bs ! j)) (snd (bs ! j)))"
      using j by (simp add: tp s0 ids)
  qed
  from concat_nth_batch [OF i] obtain j where j: "j < length bs"
    and lo: "?st j \<le> i" and hi: "i < ?st j + length (?rss ! j)"
    and nth: "concat ?rss ! i = ?rss ! j ! (i - ?st j)" by auto
  have i64: "i < 2 ^ 64" using i total by simp
  have uj: "unat (?ids ! j) = ?st j"
    by (simp only: idj [OF j] unat_of_nat64 [OF stN])
  have le_j: "?ids ! j \<le> of_nat i"
    by (simp only: idj [OF j] of_nat64_le [OF stN i64] lo)
  have above: "\<And>k. j < k \<Longrightarrow> k < length bs \<Longrightarrow> \<not> ?ids ! k \<le> of_nat i"
  proof -
    fix k assume k: "j < k" "k < length bs"
    have "?st (Suc j) \<le> ?st k" using k by (intro concat_take_mono) simp
    moreover have "?st (Suc j) = ?st j + length (?rss ! j)"
      using j by (intro concat_take_Suc) simp
    ultimately have "i < ?st k" using hi by simp
    then show "\<not> ?ids ! k \<le> of_nat i"
      by (simp only: idj [OF k(2)] of_nat64_le [OF stN i64] not_le)
  qed
  have below: "\<And>k. k \<le> j \<Longrightarrow> ?ids ! k \<le> ?ids ! j"
  proof -
    fix k assume k: "k \<le> j"
    then have "k < length bs" using j by simp
    moreover have "?st k \<le> ?st j" using k by (rule concat_take_mono)
    ultimately show "?ids ! k \<le> ?ids ! j"
      by (simp only: idj j of_nat64_le [OF stN stN])
  qed
  have scan: "scan_batches ?ids (length ?ids) (of_nat i) = ?ids ! j"
    using j le_j above by (intro scan_batches_found) (simp_all add: len)
  have mx: "?ids ! j = Max {c \<in> set ?ids. c \<le> of_nat i}"
  proof (rule Max_eqI [symmetric])
    show "finite {c \<in> set ?ids. c \<le> of_nat i}" by simp
    show "?ids ! j \<in> {c \<in> set ?ids. c \<le> of_nat i}"
      using j le_j len by simp
    fix y assume "y \<in> {c \<in> set ?ids. c \<le> of_nat i}"
    then obtain k where k: "k < length bs" "y = ?ids ! k" "?ids ! k \<le> of_nat i"
      by (auto simp: in_set_conv_nth len)
    then have "k \<le> j" using above [of k] by (meson not_le_imp_less)
    then show "y \<le> ?ids ! j" using below k by simp
  qed
  let ?recs = "snd (bs ! j)"
  have rj: "?rss ! j = ?recs" using j by simp
  have off: "i - ?st j < length ?recs" using lo hi rj by simp
  have "bs ! j \<in> set bs" using j by simp
  then have bsz: "batch_size ?recs < 2 ^ 32" using fits by blast
  then have f32: "32 + 4 * length ?recs + length (concat ?recs) < 2 ^ 32"
    by (simp add: batch_size_def headerBytes_def recordIndexSize_def)
  then have n32: "length ?recs < 2 ^ 32" by simp
  have nob: "\<not> nextRecordID s \<le> of_nat i"
    using i by (simp only: nx of_nat64_le [OF total i64] not_le)
  have rd: "fst (Reader (S3_backing ss) (recordBatchPath (topicPath s) (?ids ! j))
                  (w\<lparr>faults := []\<rparr>))
              = Inr \<lparr> data = encode_batch (fst (bs ! j)) ?recs, pos = 0 \<rparr>"
    using fl [OF j] by (simp add: S3_backing_def S3_Reader_cached cache_path_def)
  have sub: "(ucast (of_nat i - ?ids ! j :: uint64) :: uint32) = of_nat (i - ?st j)"
  proof -
    have "(of_nat i - of_nat (?st j) :: uint64) = of_nat (i - ?st j)"
      using lo by (simp only: of_nat_diff)
    then show ?thesis by (simp only: idj [OF j] ucast_of_nat_64_32)
  qed
  have "fst (ReadRecord (S3_backing ss) s (of_nat i) (w\<lparr>faults := []\<rparr>))
          = Inr (?recs ! (i - ?st j))"
    by (simp only: ReadRecord_via [OF nob scan rd Parse_encode_batch [OF n32]] sub
        Record_encode_batch [OF f32 off])
  then show ?thesis
    using j scan mx uj lo off fl [OF j] nth rj by (intro exI [of _ j]) simp
qed

lemma NewStorage_S3_empty:
  assumes "bucket w = []" and "NewStorage (S3_backing ss) rootDir topic w = (Inr s, w')"
  shows "s = fresh_storage (filepath_Join rootDir topic)"
proof -
  obtain flt w1 where f: "fault w = (flt, w1)" by (cases "fault w")
  have b: "bucket w1 = []" using fault_frame(3) [of w] f assms(1) by simp
  show ?thesis
    using assms(2) f b
    by (cases flt)
       (auto simp: NewStorage_def listRecordBatchIDs_def S3_backing_def S3_ListFiles_def
          ListObjects_def Let_def fresh_storage_def)
qed

lemma NewStorage_example:
  "NewStorage (S3_backing example_s3) ''root'' ''t'' empty_world
     = (Inr (fresh_storage ''root/t''), empty_world)"
  by (simp add: NewStorage_def listRecordBatchIDs_def S3_backing_def S3_ListFiles_def
      ListObjects_def Let_def fresh_storage_def empty_world_def fault_def filepath_Join_def
      CutPrefix_slash_def)

text \<open>Without faults every write of the object-store writer succeeds.\<close>

lemma write_records_no_faults:
  assumes "faults w = []"
  shows "\<exists>w'. write_records (s3WriteCloser_Write f) bs w = (None, w') \<and> faults w' = []"
  using assms
proof (induction bs arbitrary: w)
  case Nil
  then show ?case by simp
next
  case (Cons b bs)
  let ?w1 = "w\<lparr>files := (files w)(f \<mapsto> (case files w f of None \<Rightarrow> b | Some c \<Rightarrow> c @ b))\<rparr>"
  have s: "s3WriteCloser_Write f b w = (None, ?w1)"
    using Cons.prems by (simp add: s3WriteCloser_Write_def file_Write_def)
  have "faults ?w1 = []" using Cons.prems by simp
  from Cons.IH [OF this] show ?case by (simp add: s)
qed

lemma AddRecordBatch_S3_no_faults:
  assumes "faults w = []"
    and "files w (cache_path ss (topicPath s) (nextRecordID s)) = None"
  shows "\<exists>s' w'. AddRecordBatch (S3_backing ss) now s records w = (None, s', w')
           \<and> faults w' = []"
proof -
  let ?rb = "recordBatchPath (topicPath s) (nextRecordID s)"
  let ?p = "recordBatchCachePath ss ?rb"
  let ?w1 = "w\<lparr>files := (files w)(?p \<mapsto> []), handles := ?p # handles w\<rparr>"
  let ?wc = "\<lparr> wc_Write = s3WriteCloser_Write ?p,
               wc_Close = s3WriteCloser_Close ?p (s3Upload ?rb) \<rparr>"
  have wr: "S3_Writer ss ?rb w = (Inr ?wc, ?w1)"
    using assms by (simp add: S3_Writer_def Let_def Exists_def createCacheFile_def cache_path_def)
  have "faults ?w1 = []" using assms by simp
  from write_records_no_faults [OF this]
  obtain w2 where w2: "Write (s3WriteCloser_Write ?p) now records ?w1 = (None, w2)"
    and f2: "faults w2 = []"
    unfolding Write_as_write_records by blast
  have cl: "faults (snd (s3WriteCloser_Close ?p (s3Upload ?rb) w2)) = []"
    using f2 by (simp add: s3WriteCloser_Close_def file_Seek0_def s3Upload_def PutObject_def
        file_Close_def)
  show ?thesis
    using cl by (simp add: AddRecordBatch_def Let_def S3_backing_def wr w2)
qed

section \<open>The example run\<close>

lemma pad_11: "replicate 11 CHR ''0'' = ''00000000000''"
  by (simp add: eval_nat_numeral)

lemma decimal_digit: "n < 10 \<Longrightarrow> decimal n = [digit_char n]"
  by (simp add: decimal.simps [of n])

lemma sprintf_012d_0: "sprintf_012d 0 = ''000000000000''"
  by (simp add: sprintf_012d_def decimal_digit pad_11 digit_char_def)

lemma sprintf_012d_1: "sprintf_012d 1 = ''000000000001''"
  by (simp add: sprintf_012d_def decimal_digit pad_11 digit_char_def)

lemma sprintf_012d_5: "sprintf_012d 5 = ''000000000005''"
  by (simp add: sprintf_012d_def decimal_digit pad_11 digit_char_def)

lemma cache_path_example_0:
  "cache_path example_s3 ''root/t'' 0 = ''cache/root/t/000000000000.record-batch''"
  by (simp add: cache_path_def recordBatchCachePath_def recordBatchPath_def filepath_Join_def
      sprintf_012d_0 recordBatchExtension_def example_s3_def)

lemma cache_path_example_1:
  "cache_path example_s3 ''root/t'' 1 = ''cache/root/t/000000000001.record-batch''"
  by (simp add: cache_path_def recordBatchCachePath_def recordBatchPath_def filepath_Join_def
      sprintf_012d_1 recordBatchExtension_def example_s3_def)

text \<open>One call on a fresh coordinator and an empty world.\<close>

lemma first_batch_example:
  "\<exists>w. add_batches (S3_backing example_s3) (fresh_storage ''root/t'') [(now, records)] empty_world
          = Some (\<lparr> topicPath = ''root/t'', nextRecordID = of_nat (length records),
                     recordBatchIDs = [0] \<rparr>, w)
      \<and> faults w = []
      \<and> files w = [cache_path example_s3 ''root/t'' 0 \<mapsto> encode_batch now records]"
proof -
  let ?s = "fresh_storage ''root/t''"
  have f: "faults empty_world = []" by (simp add: empty_world_def)
  have n: "files empty_world (cache_path example_s3 (topicPath ?s) (nextRecordID ?s)) = None"
    by (simp add: empty_world_def)
  from AddRecordBatch_S3_no_faults [OF f n, of now records]
  obtain s' w' where a: "AddRecordBatch (S3_backing example_s3) now ?s records empty_world
                          = (None, s', w')" and f': "faults w' = []" by blast
  from AddRecordBatch_S3_ok [OF a]
  have "s' = \<lparr> topicPath = ''root/t'', nextRecordID = of_nat (length records),
               recordBatchIDs = [0] \<rparr>"
    and "files w' = [cache_path example_s3 ''root/t'' 0 \<mapsto> encode_batch now records]"
    by (simp_all add: fresh_storage_def cache_path_def empty_world_def)
  then show ?thesis using a f' by simp
qed

text \<open>Two calls, with one record and with two.\<close>

lemma two_batches_example:
  "\<exists>w. add_batches (S3_backing example_s3) (fresh_storage ''root/t'')
          [(1, [[0x41]]), (2, [[0x42, 0x43]])] empty_world
          = Some (\<lparr> topicPath = ''root/t'', nextRecordID = 2, recordBatchIDs = [0, 1] \<rparr>, w)"
proof -
  let ?s = "fresh_storage ''root/t''"
  let ?s1 = "\<lparr> topicPath = ''root/t'', nextRecordID = 1, recordBatchIDs = [0] \<rparr>"
  from first_batch_example [of 1 "[[0x41]]"]
  obtain w1 where a1: "add_batches (S3_backing example_s3) ?s [(1, [[0x41]])] empty_world
                        = Some (?s1, w1)"
    and f1: "faults w1 = []"
    and fl: "files w1 = [cache_path example_s3 ''root/t'' 0 \<mapsto> encode_batch 1 [[0x41]]]"
    by auto
  have r1: "AddRecordBatch (S3_backing example_s3) 1 ?s [[0x41]] empty_world = (None, ?s1, w1)"
    using a1 by (auto split: prod.splits option.splits)
  have n: "files w1 (cache_path example_s3 (topicPath ?s1) (nextRecordID ?s1)) = None"
    by (simp add: fl cache_path_example_0 cache_path_example_1)
  from AddRecordBatch_S3_no_faults [OF f1 n, of 2 "[[0x42, 0x43]]"]
  obtain s2 w2 where a2: "AddRecordBatch (S3_backing example_s3) 2 ?s1 [[0x42, 0x43]] w1
                          = (None, s2, w2)" by blast
  from AddRecordBatch_S3_ok [OF a2]
  have "s2 = \<lparr> topicPath = ''root/t'', nextRecordID = 2, recordBatchIDs = [0, 1] \<rparr>" by simp
  then show ?thesis using r1 a2 by simp
qed

section \<open>Reads under faults\<close>

text \<open>A read of a cached batch either fails on the fault of opening the file or is the
  read without faults.\<close>

lemma S3_Reader_cached_any:
  assumes "files w (recordBatchCachePath ss rbPath) = Some c"
  shows "fst (S3_Reader ss rbPath w) = Inl BackingIO
       \<or> fst (S3_Reader ss rbPath w) = Inr \<lparr> data = c, pos = 0 \<rparr>"
proof -
  obtain flt w1 where f: "fault w = (flt, w1)" by (cases "fault w")
  have "files w1 = files w" using fault_frame(1) [of w] f by simp
  then show ?thesis using assms f by (cases flt) (simp_all add: S3_Reader_def Let_def)
qed

lemma ReadRecord_S3_fault_or_same:
  assumes "files w (cache_path ss (topicPath s)
             (scan_batches (recordBatchIDs s) (length (recordBatchIDs s)) recordID)) = Some c"
  shows "fst (ReadRecord (S3_backing ss) s recordID w) = Inl BackingIO
       \<or> fst (ReadRecord (S3_backing ss) s recordID w)
           = fst (ReadRecord (S3_backing ss) s recordID (w\<lparr>faults := []\<rparr>))"
proof (cases "nextRecordID s \<le> recordID")
  case True
  then show ?thesis by (simp add: ReadRecord_out_of_bounds)
next
  case False
  let ?b = "scan_batches (recordBatchIDs s) (length (recordBatchIDs s)) recordID"
  let ?p = "recordBatchPath (topicPath s) ?b"
  have c: "files w (recordBatchCachePath ss ?p) = Some c"
    using assms by (simp add: cache_path_def)
  have nf: "fst (S3_Reader ss ?p (w\<lparr>faults := []\<rparr>)) = Inr \<lparr> data = c, pos = 0 \<rparr>"
    using c by (simp add: S3_Reader_cached)
  from S3_Reader_cached_any [OF c] show ?thesis
  proof
    assume e: "fst (S3_Reader ss ?p w) = Inl BackingIO"
    then have "fst (ReadRecord (S3_backing ss) s recordID w) = Inl BackingIO"
      using False
      by (cases "S3_Reader ss ?p w") (simp add: ReadRecord_def Let_def S3_backing_def)
    then show ?thesis by simp
  next
    assume r: "fst (S3_Reader ss ?p w) = Inr \<lparr> data = c, pos = 0 \<rparr>"
    have "fst (ReadRecord (S3_backing ss) s recordID w)
            = (case Parse \<lparr> data = c, pos = 0 \<rparr> of
                 Inl e \<Rightarrow> Inl e
               | Inr rb \<Rightarrow> Record rb (ucast (recordID - ?b)))"
      using False r
      by (cases "S3_Reader ss ?p w")
         (auto simp: ReadRecord_def Let_def S3_backing_def split: sum.splits)
    moreover have "fst (ReadRecord (S3_backing ss) s recordID (w\<lparr>faults := []\<rparr>))
            = (case Parse \<lparr> data = c, pos = 0 \<rparr> of
                 Inl e \<Rightarrow> Inl e
               | Inr rb \<Rightarrow> Record rb (ucast (recordID - ?b)))"
      using False nf
      by (cases "S3_Reader ss ?p (w\<lparr>faults := []\<rparr>)")
         (auto simp: ReadRecord_def Let_def S3_backing_def split: sum.splits)
    ultimately show ?thesis by simp
  qed
qed

lemma unat_add_of_nat64:
  "unat (a :: uint64) + n < 2 ^ 64 \<Longrightarrow> unat (a + of_nat n) = unat a + n"
  by (simp add: unat_word_ariths unat_of_nat)

section \<open>The claims about the storage coordinator\<close>

lemma Record_wrapped_index:
  assumes "length A = 2 ^ 32"
  shows "Record \<lparr> Header = new_header now (length [A, [1]]),
                  recordIndex = recordIndexes 0 [A, [1]],
                  rdr = \<lparr> data = d, pos = p \<rparr> \<rparr> 0 = Inr []"
proof -
  have ix: "recordIndexes 0 [A, [1]] = [0, 0]"
    using assms by simp
  show ?thesis
    unfolding ix by (simp add: Record_def Let_def read_full_def seek_def)
qed

lemma Parse_wrapped_count:
  assumes "(of_nat (length records) :: uint32) = 0"
  shows "Parse \<lparr> data = encode_batch now records, pos = 0 \<rparr> =
           Inr \<lparr> Header = new_header now (length records), recordIndex = [],
                 rdr = \<lparr> data = encode_batch now records, pos = 32 \<rparr> \<rparr>"
proof -
  let ?h = "new_header now (length records)"
  let ?d = "encode_batch now records"
  have h: "take 32 ?d = encode_header ?h"
    by (simp add: encode_batch_def length_encode_header)
  have r1: "read_full \<lparr> data = ?d, pos = 0 \<rparr> headerBytes =
              Inr (encode_header ?h, \<lparr> data = ?d, pos = 32 \<rparr>)"
    by (simp add: read_full_def headerBytes_def length_encode_batch h)
  have n: "unat (NumRecords ?h) = 0" using assms by simp
  have r2: "read_full \<lparr> data = ?d, pos = 32 \<rparr> (recordIndexSize * 0) =
              Inr ([], \<lparr> data = ?d, pos = 32 \<rparr>)"
    by (simp add: read_full_def)
  have dh: "decode_header (encode_header ?h) = ?h"
    by (rule decode_encode_header) simp_all
  show ?thesis
    by (simp only: Parse_def r1 dh Let_def n r2 sum.case prod.case un_le32s.simps)
qed

text \<open>
  Claim C1, as amended. Take a coordinator constructed by \<open>NewStorage\<close> on the
  object-store backing over an empty bucket, and a sequence of \<open>AddRecordBatch\<close>
  calls that all return \<^verbatim>\<open>nil\<close>, each batch encoding to a file shorter than
  \<open>2 ^ 32\<close> bytes, fewer than \<open>2 ^ 64\<close> records in all. Then for every \<open>i\<close>
  below the number of records submitted, \<open>ReadRecord i\<close>, run with no fault during
  the read, returns the \<open>i\<close>-th record in submission order; under any faults it
  returns that record or fails with the backing's error. The batch the scan
  selects is the greatest element of \<open>recordBatchIDs\<close> that is at most \<open>i\<close>, and
  its cache file holds the record at index \<open>i - batchID\<close>. (Non-empty record
  lists are not needed: on this backing a call after an empty batch fails.)
\<close>

theorem storage_roundtrip:
  assumes "bucket w_init = []"
    and "NewStorage (S3_backing ss) rootDir topic w_init = (Inr s0, w0)"
    and "add_batches (S3_backing ss) s0 batches w0 = Some (s, w)"
    and "\<forall>b \<in> set batches. batch_size (snd b) < 2 ^ 32"
    and "length (concat (map snd batches)) < 2 ^ 64"
    and "i < length (concat (map snd batches))"
  shows "fst (ReadRecord (S3_backing ss) s (of_nat i) (w\<lparr>faults := []\<rparr>))
           = Inr (concat (map snd batches) ! i)
       \<and> (fst (ReadRecord (S3_backing ss) s (of_nat i) w) = Inl BackingIO
          \<or> fst (ReadRecord (S3_backing ss) s (of_nat i) w)
              = Inr (concat (map snd batches) ! i))
       \<and> (let batchID = Max {c \<in> set (recordBatchIDs s). c \<le> of_nat i}
          in scan_batches (recordBatchIDs s) (length (recordBatchIDs s)) (of_nat i) = batchID
             \<and> (\<exists>now records.
                   files w (cache_path ss (topicPath s) batchID) = Some (encode_batch now records)
                   \<and> i - unat batchID < length records
                   \<and> records ! (i - unat batchID) = concat (map snd batches) ! i))"
proof -
  have s0: "nextRecordID s0 = 0" "recordBatchIDs s0 = []"
    using NewStorage_S3_empty [OF assms(1,2)] by (simp_all add: fresh_storage_def)
  from read_after_run [OF assms(3) s0 assms(4,5,6)]
  obtain j where j: "j < length batches"
    "scan_batches (recordBatchIDs s) (length (recordBatchIDs s)) (of_nat i) = recordBatchIDs s ! j"
    "recordBatchIDs s ! j = Max {c \<in> set (recordBatchIDs s). c \<le> of_nat i}"
    "i - unat (recordBatchIDs s ! j) < length (snd (batches ! j))"
    "files w (cache_path ss (topicPath s) (recordBatchIDs s ! j))
        = Some (encode_batch (fst (batches ! j)) (snd (batches ! j)))"
    "snd (batches ! j) ! (i - unat (recordBatchIDs s ! j)) = concat (map snd batches) ! i"
    "fst (ReadRecord (S3_backing ss) s (of_nat i) (w\<lparr>faults := []\<rparr>))
        = Inr (concat (map snd batches) ! i)"
    by blast
  have "\<exists>now records.
          files w (cache_path ss (topicPath s) (recordBatchIDs s ! j)) = Some (encode_batch now records)
          \<and> i - unat (recordBatchIDs s ! j) < length records
          \<and> records ! (i - unat (recordBatchIDs s ! j)) = concat (map snd batches) ! i"
    using j(4,5,6) by blast
  moreover have "fst (ReadRecord (S3_backing ss) s (of_nat i) w) = Inl BackingIO
          \<or> fst (ReadRecord (S3_backing ss) s (of_nat i) w)
              = Inr (concat (map snd batches) ! i)"
    using ReadRecord_S3_fault_or_same [of w ss s "of_nat i"] j(2,5,7) by simp
  ultimately show ?thesis
    using j(2,7) unfolding Let_def j(3) [symmetric] by simp
qed

text \<open>The hypotheses hold for the two batches \<open>[[0x41]]\<close> and \<open>[[0x42, 0x43]]\<close>
  added to a fresh coordinator; record 1 is read back.\<close>

theorem storage_roundtrip_witness:
  "bucket empty_world = []
   \<and> NewStorage (S3_backing example_s3) ''root'' ''t'' empty_world
       = (Inr (fresh_storage ''root/t''), empty_world)
   \<and> add_batches (S3_backing example_s3) (fresh_storage ''root/t'')
        [(1, [[0x41]]), (2, [[0x42, 0x43]])] empty_world \<noteq> None
   \<and> batch_size [[0x41]] < 2 ^ 32 \<and> batch_size [[0x42, 0x43]] < 2 ^ 32
   \<and> length (concat (map snd [(1 :: uint64, [[0x41 :: byte]]), (2, [[0x42, 0x43]])])) < 2 ^ 64
   \<and> (1 :: nat) < length (concat (map snd [(1 :: uint64, [[0x41 :: byte]]), (2, [[0x42, 0x43]])]))
   \<and> read_after example_s3 (fresh_storage ''root/t'')
        [(1, [[0x41]]), (2, [[0x42, 0x43]])] empty_world 1 = Some (Inr [0x42, 0x43])"
proof -
  let ?bs = "[(1 :: uint64, [[0x41 :: byte]]), (2, [[0x42, 0x43]])]"
  have h1: "bucket empty_world = []" by (simp add: empty_world_def)
  note h2 = NewStorage_example
  obtain w where h3: "add_batches (S3_backing example_s3) (fresh_storage ''root/t'') ?bs empty_world
      = Some (\<lparr> topicPath = ''root/t'', nextRecordID = 2, recordBatchIDs = [0, 1] \<rparr>, w)"
    using two_batches_example by blast
  have h4: "\<forall>b \<in> set ?bs. batch_size (snd b) < 2 ^ 32"
    by (simp add: batch_size_def headerBytes_def recordIndexSize_def)
  have h5: "length (concat (map snd ?bs)) < 2 ^ 64" by simp
  have h6: "(1 :: nat) < length (concat (map snd ?bs))" by simp
  from storage_roundtrip [OF h1 h2 h3 h4 h5 h6]
  have "fst (ReadRecord (S3_backing example_s3)
               \<lparr> topicPath = ''root/t'', nextRecordID = 2, recordBatchIDs = [0, 1] \<rparr>
               (of_nat 1) (w\<lparr>faults := []\<rparr>)) = Inr (concat (map snd ?bs) ! 1)"
    by (rule conjunct1)
  then have "read_after example_s3 (fresh_storage ''root/t'') ?bs empty_world 1
               = Some (Inr [0x42, 0x43])"
    unfolding read_after_def h3 by simp
  moreover have "batch_size [[0x41]] < 2 ^ 32 \<and> batch_size [[0x42, 0x43]] < 2 ^ 32"
    using h4 by simp
  ultimately show ?thesis using h1 h2 h3 h5 h6 by simp
qed

text \<open>
  Claim C1 as stated fails on one batch of two records, the first of \<open>2 ^ 32\<close>
  bytes: the call succeeds, and reading record 0 returns the empty byte sequence.
\<close>

theorem storage_roundtrip_counterexample:
  "NewStorage (S3_backing example_s3) ''root'' ''t'' empty_world
     = (Inr (fresh_storage ''root/t''), empty_world)
   \<and> read_after example_s3 (fresh_storage ''root/t'')
        [(0, [replicate (2 ^ 32) 0, [1]])] empty_world 0 = Some (Inr [])
   \<and> concat (map snd [(0 :: uint64, [replicate (2 ^ 32) (0 :: byte), [1]])]) ! 0 \<noteq> []"
proof -
  define A :: bytes where "A = replicate (2 ^ 32) 0"
  have len: "length A = 2 ^ 32" by (simp add: A_def)
  have ne: "A \<noteq> []" using len by auto
  let ?s = "\<lparr> topicPath = ''root/t'', nextRecordID = of_nat (length [A, [1]]),
              recordBatchIDs = [0] \<rparr>"
  from first_batch_example [of 0 "[A, [1]]"]
  obtain w where run: "add_batches (S3_backing example_s3) (fresh_storage ''root/t'')
                         [(0, [A, [1]])] empty_world = Some (?s, w)"
    and fl: "files w = [cache_path example_s3 ''root/t'' 0 \<mapsto> encode_batch 0 [A, [1]]]"
    by blast
  have nob: "\<not> nextRecordID ?s \<le> 0" by simp
  have scan: "scan_batches (recordBatchIDs ?s) (length (recordBatchIDs ?s)) 0 = 0"
    by (simp add: Let_def)
  have rd: "fst (Reader (S3_backing example_s3) (recordBatchPath (topicPath ?s) 0)
                  (w\<lparr>faults := []\<rparr>))
              = Inr \<lparr> data = encode_batch 0 [A, [1]], pos = 0 \<rparr>"
    by (simp add: S3_backing_def S3_Reader_cached fl cache_path_def [symmetric])
  have n: "length [A, [1]] < 2 ^ 32" by simp
  have "fst (ReadRecord (S3_backing example_s3) ?s 0 (w\<lparr>faults := []\<rparr>)) = Inr []"
    by (simp only: ReadRecord_via [OF nob scan rd Parse_encode_batch [OF n]]
        diff_self unsigned_0 Record_wrapped_index [OF len])
  then have "read_after example_s3 (fresh_storage ''root/t'') [(0, [A, [1]])] empty_world 0
               = Some (Inr [])"
    unfolding read_after_def run by simp
  then have "NewStorage (S3_backing example_s3) ''root'' ''t'' empty_world
     = (Inr (fresh_storage ''root/t''), empty_world)
   \<and> read_after example_s3 (fresh_storage ''root/t'') [(0, [A, [1]])] empty_world 0 = Some (Inr [])
   \<and> concat (map snd [(0 :: uint64, [A, [1]])]) ! 0 \<noteq> []"
    using ne NewStorage_example by (cases A) simp_all
  then show ?thesis unfolding A_def .
qed

section \<open>Construction from a listing\<close>

lemma path_Base_0: "path_Base ''root/t/000000000000.record-batch'' = ''000000000000.record-batch''"
  by (simp add: path_Base_def)

lemma parse_recordID_0: "parse_recordID ''root/t/000000000000.record-batch'' = Inr 0"
  by (simp add: parse_recordID_def path_Base_def recordBatchExtension_def FromString_def
      digit_val_def)

lemma parse_recordID_5: "parse_recordID ''root/t/000000000005.record-batch'' = Inr 5"
  by (simp add: parse_recordID_def path_Base_def recordBatchExtension_def FromString_def
      digit_val_def)

lemma recordBatchPath_0: "recordBatchPath ''root/t'' 0 = ''root/t/000000000000.record-batch''"
  by (simp add: recordBatchPath_def filepath_Join_def sprintf_012d_0 recordBatchExtension_def)

lemma recordBatchPath_5: "recordBatchPath ''root/t'' 5 = ''root/t/000000000005.record-batch''"
  by (simp add: recordBatchPath_def filepath_Join_def sprintf_012d_5 recordBatchExtension_def)

lemma parse_recordIDs_map:
  "parse_recordIDs acc filePaths = Inr ids \<Longrightarrow>
     \<exists>new. ids = acc @ new \<and> map parse_recordID filePaths = map Inr new"
proof (induction filePaths arbitrary: acc)
  case Nil
  then show ?case by simp
next
  case (Cons fp fps)
  then obtain recordID where p: "parse_recordID fp = Inr recordID"
    and r: "parse_recordIDs (acc @ [recordID]) fps = Inr ids"
    by (auto split: sum.splits)
  from Cons.IH [OF r] obtain new where "ids = (acc @ [recordID]) @ new"
    "map parse_recordID fps = map Inr new" by blast
  then show ?case using p by (intro exI [of _ "recordID # new"]) simp
qed

lemma parse_recordIDs_ok:
  "map parse_recordID filePaths = map Inr new \<Longrightarrow> parse_recordIDs acc filePaths = Inr (acc @ new)"
proof (induction filePaths arbitrary: acc new)
  case Nil
  then show ?case by simp
next
  case (Cons fp fps)
  then obtain x xs where "new = x # xs" "parse_recordID fp = Inr x"
    "map parse_recordID fps = map Inr xs"
    by (cases new) auto
  then show ?case using Cons.IH [of xs "acc @ [x]"] by simp
qed

lemma sorted_le_last:
  fixes xs :: "uint64 list"
  shows "sorted xs \<Longrightarrow> x \<in> set xs \<Longrightarrow> x \<le> last xs"
proof (induction xs)
  case Nil
  then show ?case by simp
next
  case (Cons a xs)
  show ?case
  proof (cases "xs = []")
    case True
    then show ?thesis using Cons.prems by simp
  next
    case False
    then have l: "last (a # xs) = last xs" and m: "last xs \<in> set xs" by simp_all
    show ?thesis
    proof (cases "x = a")
      case True
      then show ?thesis using Cons.prems(1) m l by simp
    next
      case False
      then have "x \<in> set xs" using Cons.prems(2) by simp
      then show ?thesis using Cons.IH Cons.prems(1) l by simp
    qed
  qed
qed

text \<open>
  Claim C5, as amended. On construction the coordinator stores as
  \<open>recordBatchIDs\<close> the batch IDs parsed from the \<open>ListFiles\<close> result in the
  order \<open>ListFiles\<close> returned the paths; nothing is sorted. \<open>nextRecordID\<close> is 0
  when no path is listed, and otherwise the ID of the batch listed last plus the
  \<open>NumRecords\<close> of that batch's header; when the listing is in ascending order of
  IDs, that batch is the one with the numerically greatest ID.
\<close>

theorem NewStorage_listing_order:
  assumes "ListFiles B (filepath_Join rootDir topic) recordBatchExtension w = (Inr filePaths, w1)"
    and "NewStorage B rootDir topic w = (Inr s, w2)"
  shows "map parse_recordID filePaths = map Inr (recordBatchIDs s)
       \<and> (if recordBatchIDs s = [] then nextRecordID s = 0
          else \<exists>hdr. fst (readRecordBatchHeader B (topicPath s) (last (recordBatchIDs s)) w1)
                        = Inr hdr
                 \<and> nextRecordID s = last (recordBatchIDs s) + ucast (NumRecords hdr))
       \<and> (sorted (recordBatchIDs s) \<and> recordBatchIDs s \<noteq> []
            \<longrightarrow> last (recordBatchIDs s) = Max (set (recordBatchIDs s)))"
proof -
  let ?tp = "filepath_Join rootDir topic"
  obtain r where l: "listRecordBatchIDs B ?tp w = (r, w1)" and r: "r = parse_recordIDs [] filePaths"
    using assms(1) by (simp add: listRecordBatchIDs_def)
  from assms(2) l obtain ids where ids: "r = Inr ids"
    by (cases r) (auto simp: NewStorage_def Let_def)
  from parse_recordIDs_map [OF ids [unfolded r]]
  have m: "map parse_recordID filePaths = map Inr ids" by simp
  have a: "recordBatchIDs s = ids \<and> topicPath s = ?tp
       \<and> (if ids = [] then nextRecordID s = 0
          else \<exists>hdr. fst (readRecordBatchHeader B ?tp (last ids) w1) = Inr hdr
                 \<and> nextRecordID s = last ids + ucast (NumRecords hdr))"
  proof (cases "ids = []")
    case True
    then show ?thesis using assms(2) l ids by (auto simp: NewStorage_def Let_def)
  next
    case False
    then have lst: "ids ! (length ids - 1) = last ids" by (simp add: last_conv_nth)
    obtain h w' where h: "readRecordBatchHeader B ?tp (last ids) w1 = (h, w')"
      by (cases "readRecordBatchHeader B ?tp (last ids) w1")
    with assms(2) l ids False lst obtain hdr where "h = Inr hdr"
      "s = \<lparr> topicPath = ?tp, nextRecordID = last ids + ucast (NumRecords hdr),
             recordBatchIDs = ids \<rparr>"
      by (cases h) (auto simp: NewStorage_def Let_def)
    then show ?thesis using False h by simp
  qed
  have c: "sorted (recordBatchIDs s) \<and> recordBatchIDs s \<noteq> []
            \<longrightarrow> last (recordBatchIDs s) = Max (set (recordBatchIDs s))"
  proof
    assume h: "sorted (recordBatchIDs s) \<and> recordBatchIDs s \<noteq> []"
    then have "\<forall>x \<in> set (recordBatchIDs s). x \<le> last (recordBatchIDs s)"
      using sorted_le_last by blast
    then show "last (recordBatchIDs s) = Max (set (recordBatchIDs s))"
      using h by (intro Max_eqI [symmetric]) simp_all
  qed
  show ?thesis using a m c by simp
qed

lemma Parse_two_files_0:
  "Parse \<lparr> data = encode_batch 1 [[0], [1], [2], [3], [4]], pos = 0 \<rparr>
     = Inr \<lparr> Header = new_header 1 (length [[0 :: byte], [1], [2], [3], [4]]),
             recordIndex = recordIndexes 0 [[0], [1], [2], [3], [4]],
             rdr = \<lparr> data = encode_batch 1 [[0], [1], [2], [3], [4]],
                     pos = 32 + 4 * length [[0 :: byte], [1], [2], [3], [4]] \<rparr> \<rparr>"
  by (rule Parse_encode_batch) simp

lemma Parse_two_files_5:
  "Parse \<lparr> data = encode_batch 2 [[5], [6], [7]], pos = 0 \<rparr>
     = Inr \<lparr> Header = new_header 2 (length [[5 :: byte], [6], [7]]),
             recordIndex = recordIndexes 0 [[5], [6], [7]],
             rdr = \<lparr> data = encode_batch 2 [[5], [6], [7]],
                     pos = 32 + 4 * length [[5 :: byte], [6], [7]] \<rparr> \<rparr>"
  by (rule Parse_encode_batch) simp

lemma list_asc:
  "listRecordBatchIDs
     (fixed_backing [''root/t/000000000000.record-batch'', ''root/t/000000000005.record-batch'']
        contents) tp () = (Inr [0, 5], ())"
  by (simp add: listRecordBatchIDs_def fixed_backing_def parse_recordID_0 parse_recordID_5)

lemma list_desc:
  "listRecordBatchIDs
     (fixed_backing [''root/t/000000000005.record-batch'', ''root/t/000000000000.record-batch'']
        contents) tp () = (Inr [5, 0], ())"
  by (simp add: listRecordBatchIDs_def fixed_backing_def parse_recordID_0 parse_recordID_5)

lemma header_0:
  "readRecordBatchHeader (fixed_backing listing two_files) ''root/t'' 0 ()
     = (Inr (new_header 1 (length [[0 :: byte], [1], [2], [3], [4]])), ())"
  by (simp only: readRecordBatchHeader_def recordBatchPath_0)
     (simp add: fixed_backing_def two_files_def Parse_two_files_0 del: list.size)

lemma header_5:
  "readRecordBatchHeader (fixed_backing listing two_files) ''root/t'' 5 ()
     = (Inr (new_header 2 (length [[5 :: byte], [6], [7]])), ())"
  by (simp only: readRecordBatchHeader_def recordBatchPath_5)
     (simp add: fixed_backing_def two_files_def Parse_two_files_5 del: list.size)

lemma join_root_t: "filepath_Join ''root'' ''t'' = ''root/t''"
  by (simp add: filepath_Join_def)

lemma NewStorage_ascending_listing:
  "NewStorage
     (fixed_backing [''root/t/000000000000.record-batch'', ''root/t/000000000005.record-batch'']
        two_files) ''root'' ''t'' ()
   = (Inr \<lparr> topicPath = ''root/t'', nextRecordID = 8, recordBatchIDs = [0, 5] \<rparr>, ())"
  by (simp only: NewStorage_def join_root_t Let_def list_asc prod.case sum.case)
     (simp add: header_5)

text \<open>The hypotheses hold for the test backing that lists the batches 0 and 5 in
  ascending order.\<close>

theorem NewStorage_listing_order_witness:
  "ListFiles
     (fixed_backing [''root/t/000000000000.record-batch'', ''root/t/000000000005.record-batch'']
        two_files) (filepath_Join ''root'' ''t'') recordBatchExtension ()
     = (Inr [''root/t/000000000000.record-batch'', ''root/t/000000000005.record-batch''], ())
   \<and> NewStorage
       (fixed_backing [''root/t/000000000000.record-batch'', ''root/t/000000000005.record-batch'']
          two_files) ''root'' ''t'' ()
     = (Inr \<lparr> topicPath = ''root/t'', nextRecordID = 8, recordBatchIDs = [0, 5] \<rparr>, ())
   \<and> map parse_recordID
         [''root/t/000000000000.record-batch'', ''root/t/000000000005.record-batch'']
       = map Inr [0, 5]
   \<and> last [0, 5 :: uint64] = Max (set [0, 5])"
proof -
  let ?B = "fixed_backing
      [''root/t/000000000000.record-batch'', ''root/t/000000000005.record-batch''] two_files"
  have h1: "ListFiles ?B (filepath_Join ''root'' ''t'') recordBatchExtension ()
     = (Inr [''root/t/000000000000.record-batch'', ''root/t/000000000005.record-batch''], ())"
    by (simp add: fixed_backing_def)
  note h2 = NewStorage_ascending_listing
  from NewStorage_listing_order [OF h1 h2]
  have "map parse_recordID
         [''root/t/000000000000.record-batch'', ''root/t/000000000005.record-batch'']
       = map Inr [0, 5] \<and> last [0, 5 :: uint64] = Max (set [0, 5])" by simp
  then show ?thesis using h1 h2 by simp
qed

text \<open>
  Claim C5 as stated fails when \<open>ListFiles\<close> returns the same two paths in
  descending order: \<open>recordBatchIDs\<close> is \<open>[5, 0]\<close>, not sorted, and
  \<open>nextRecordID\<close> is taken from batch 0 (five records), not from batch 5.
\<close>

theorem NewStorage_listing_order_counterexample:
  "NewStorage
     (fixed_backing [''root/t/000000000005.record-batch'', ''root/t/000000000000.record-batch'']
        two_files) ''root'' ''t'' ()
   = (Inr \<lparr> topicPath = ''root/t'', nextRecordID = 5, recordBatchIDs = [5, 0] \<rparr>, ())
   \<and> \<not> sorted [5, 0 :: uint64]"
proof -
  have "NewStorage
     (fixed_backing [''root/t/000000000005.record-batch'', ''root/t/000000000000.record-batch'']
        two_files) ''root'' ''t'' ()
   = (Inr \<lparr> topicPath = ''root/t'', nextRecordID = 5, recordBatchIDs = [5, 0] \<rparr>, ())"
    by (simp only: NewStorage_def join_root_t Let_def list_desc prod.case sum.case)
       (simp add: header_0)
  then show ?thesis by simp
qed

section \<open>Reads leave the coordinator as it was\<close>

text \<open>
  Claim C10. For every backing, coordinator, record ID and backing state, the
  coordinator after \<open>ReadRecord\<close> is the coordinator before it, whether the call
  returns record bytes or an error: \<open>topicPath\<close>, \<open>recordBatchIDs\<close> and
  \<open>nextRecordID\<close> are unchanged.
\<close>

theorem ReadRecord_read_only:
  "fst (snd (ReadRecord B s recordID w)) = s
   \<and> topicPath (fst (snd (ReadRecord B s recordID w))) = topicPath s
   \<and> recordBatchIDs (fst (snd (ReadRecord B s recordID w))) = recordBatchIDs s
   \<and> nextRecordID (fst (snd (ReadRecord B s recordID w))) = nextRecordID s"
  by (simp add: ReadRecord_state)

section \<open>The out-of-bounds contract\<close>

text \<open>
  Claim C3, as amended. For every coordinator and
  every backing, \<open>ReadRecord\<close> fails with \<open>OutOfBounds\<close> when the record ID is at
  least \<open>nextRecordID\<close>; so it does for \<open>count + k\<close> (as long as that is a
  64-bit number) and for record 0 on a fresh coordinator. Conversely, on a
  coordinator constructed over an empty bucket and after calls that all
  succeeded, each batch encoding to fewer than \<open>2 ^ 32\<close> bytes and fewer than
  \<open>2 ^ 64\<close> records in all, \<open>nextRecordID\<close> is the number of records and a read
  below it does not fail with \<open>OutOfBounds\<close>, whatever faults occur during it.
\<close>

theorem out_of_bounds_contract:
  assumes "bucket w_init = []"
    and "NewStorage (S3_backing ss) rootDir topic w_init = (Inr s0, w0)"
    and "add_batches (S3_backing ss) s0 batches w0 = Some (s, w)"
    and "\<forall>b \<in> set batches. batch_size (snd b) < 2 ^ 32"
    and "length (concat (map snd batches)) < 2 ^ 64"
  shows "unat (nextRecordID s) = length (concat (map snd batches))
       \<and> (fst (ReadRecord (S3_backing ss) s recordID w) = Inl OutOfBounds
            \<longleftrightarrow> nextRecordID s \<le> recordID)
       \<and> (unat (nextRecordID s) + k < 2 ^ 64
            \<longrightarrow> fst (ReadRecord (S3_backing ss) s (nextRecordID s + of_nat k) w)
                  = Inl OutOfBounds)
       \<and> fst (ReadRecord (S3_backing ss) s0 0 w0) = Inl OutOfBounds
       \<and> (nextRecordID s' \<le> recordID'
            \<longrightarrow> fst (ReadRecord B s' recordID' w') = Inl OutOfBounds)"
proof -
  let ?N = "length (concat (map snd batches))"
  have s0: "nextRecordID s0 = 0" "recordBatchIDs s0 = []"
    using NewStorage_S3_empty [OF assms(1,2)] by (simp_all add: fresh_storage_def)
  have nx: "nextRecordID s = of_nat ?N"
    using add_batches_S3 [OF assms(3)] s0 by simp
  have count: "unat (nextRecordID s) = ?N"
    by (simp only: nx unat_of_nat64 [OF assms(5)])
  have iff: "fst (ReadRecord (S3_backing ss) s recordID w) = Inl OutOfBounds
            \<longleftrightarrow> nextRecordID s \<le> recordID"
  proof (cases "nextRecordID s \<le> recordID")
    case True
    then show ?thesis by (simp add: ReadRecord_out_of_bounds)
  next
    case False
    let ?i = "unat recordID"
    have i: "?i < ?N" using False count by (simp add: word_le_nat_alt)
    have r: "of_nat ?i = recordID" by simp
    from read_after_run [OF assms(3) s0 assms(4,5) i]
    obtain j where
      sc: "scan_batches (recordBatchIDs s) (length (recordBatchIDs s)) (of_nat ?i)
             = recordBatchIDs s ! j"
      and fl: "files w (cache_path ss (topicPath s) (recordBatchIDs s ! j))
                 = Some (encode_batch (fst (batches ! j)) (snd (batches ! j)))"
      and rd: "fst (ReadRecord (S3_backing ss) s (of_nat ?i) (w\<lparr>faults := []\<rparr>))
                 = Inr (concat (map snd batches) ! ?i)"
      by blast
    have "files w (cache_path ss (topicPath s)
            (scan_batches (recordBatchIDs s) (length (recordBatchIDs s)) recordID))
            = Some (encode_batch (fst (batches ! j)) (snd (batches ! j)))"
      using sc fl by (simp only: r)
    from ReadRecord_S3_fault_or_same [OF this] rd [unfolded r]
    have "fst (ReadRecord (S3_backing ss) s recordID w) \<noteq> Inl OutOfBounds" by auto
    then show ?thesis using False by simp
  qed
  have beyond: "unat (nextRecordID s) + k < 2 ^ 64
            \<longrightarrow> fst (ReadRecord (S3_backing ss) s (nextRecordID s + of_nat k) w)
                  = Inl OutOfBounds"
  proof
    assume "unat (nextRecordID s) + k < 2 ^ 64"
    then have "unat (nextRecordID s + of_nat k) = unat (nextRecordID s) + k"
      by (rule unat_add_of_nat64)
    then have "nextRecordID s \<le> nextRecordID s + of_nat k"
      by (simp add: word_le_nat_alt)
    then show "fst (ReadRecord (S3_backing ss) s (nextRecordID s + of_nat k) w)
                  = Inl OutOfBounds"
      by (rule ReadRecord_out_of_bounds)
  qed
  have fresh: "fst (ReadRecord (S3_backing ss) s0 0 w0) = Inl OutOfBounds"
    using s0 by (simp add: ReadRecord_out_of_bounds)
  have every: "nextRecordID s' \<le> recordID'
            \<longrightarrow> fst (ReadRecord B s' recordID' w') = Inl OutOfBounds"
    by (simp add: ReadRecord_out_of_bounds)
  show ?thesis using count iff beyond fresh every by blast
qed

text \<open>The hypotheses hold for the example run of two batches: record 2 is out of
  bounds and record 1 is not.\<close>

theorem out_of_bounds_contract_witness:
  "bucket empty_world = []
   \<and> NewStorage (S3_backing example_s3) ''root'' ''t'' empty_world
       = (Inr (fresh_storage ''root/t''), empty_world)
   \<and> add_batches (S3_backing example_s3) (fresh_storage ''root/t'')
        [(1, [[0x41]]), (2, [[0x42, 0x43]])] empty_world \<noteq> None
   \<and> batch_size [[0x41]] < 2 ^ 32 \<and> batch_size [[0x42, 0x43]] < 2 ^ 32
   \<and> length (concat (map snd [(1 :: uint64, [[0x41 :: byte]]), (2, [[0x42, 0x43]])])) < 2 ^ 64
   \<and> fst (ReadRecord (S3_backing example_s3)
            (fst (the (add_batches (S3_backing example_s3) (fresh_storage ''root/t'')
                         [(1, [[0x41]]), (2, [[0x42, 0x43]])] empty_world)))
            2
            (snd (the (add_batches (S3_backing example_s3) (fresh_storage ''root/t'')
                         [(1, [[0x41]]), (2, [[0x42, 0x43]])] empty_world))))
       = Inl OutOfBounds
   \<and> fst (ReadRecord (S3_backing example_s3)
            (fst (the (add_batches (S3_backing example_s3) (fresh_storage ''root/t'')
                         [(1, [[0x41]]), (2, [[0x42, 0x43]])] empty_world)))
            1
            (snd (the (add_batches (S3_backing example_s3) (fresh_storage ''root/t'')
                         [(1, [[0x41]]), (2, [[0x42, 0x43]])] empty_world))))
       \<noteq> Inl OutOfBounds"
proof -
  let ?bs = "[(1 :: uint64, [[0x41 :: byte]]), (2, [[0x42, 0x43]])]"
  let ?s = "\<lparr> topicPath = ''root/t'', nextRecordID = 2, recordBatchIDs = [0, 1] \<rparr>"
  have h1: "bucket empty_world = []" by (simp add: empty_world_def)
  note h2 = NewStorage_example
  obtain w where h3: "add_batches (S3_backing example_s3) (fresh_storage ''root/t'') ?bs empty_world
      = Some (?s, w)"
    using two_batches_example by blast
  have h4: "\<forall>b \<in> set ?bs. batch_size (snd b) < 2 ^ 32"
    by (simp add: batch_size_def headerBytes_def recordIndexSize_def)
  have h5: "length (concat (map snd ?bs)) < 2 ^ 64" by simp
  note t = out_of_bounds_contract [OF h1 h2 h3 h4 h5]
  have a: "fst (ReadRecord (S3_backing example_s3) ?s 2 w) = Inl OutOfBounds"
    using t [where recordID = 2, THEN conjunct2, THEN conjunct1] by simp
  have n: "\<not> nextRecordID ?s \<le> 1" by (simp add: word_le_nat_alt)
  have b: "fst (ReadRecord (S3_backing example_s3) ?s 1 w) \<noteq> Inl OutOfBounds"
    using t [where recordID = 1, THEN conjunct2, THEN conjunct1] n by blast
  have "batch_size [[0x41]] < 2 ^ 32 \<and> batch_size [[0x42, 0x43]] < 2 ^ 32"
    using h4 by simp
  then show ?thesis
    unfolding h3 using h1 h2 h5 a b by simp
qed

text \<open>
  Claim C3 as stated fails after one batch of \<open>2 ^ 32\<close> (empty) records: the count
  field of the header is 0, \<open>nextRecordID\<close> is \<open>2 ^ 32\<close>, and reading record 5
  fails with \<open>OutOfBounds\<close>.
\<close>

theorem out_of_bounds_contract_counterexample:
  "read_after example_s3 (fresh_storage ''root/t'') [(0, replicate (2 ^ 32) [])] empty_world 5
     = Some (Inl OutOfBounds)
   \<and> map_option fst
       (add_batches (S3_backing example_s3) (fresh_storage ''root/t'')
          [(0, replicate (2 ^ 32) [])] empty_world)
       = Some \<lparr> topicPath = ''root/t'', nextRecordID = 4294967296, recordBatchIDs = [0] \<rparr>
   \<and> \<not> (4294967296 :: uint64) \<le> 5"
proof -
  define R :: "bytes list" where "R = replicate (2 ^ 32) []"
  have len: "length R = 4294967296" by (simp add: R_def)
  let ?s = "\<lparr> topicPath = ''root/t'', nextRecordID = of_nat (length R),
              recordBatchIDs = [0] \<rparr>"
  from first_batch_example [of 0 R]
  obtain w where run: "add_batches (S3_backing example_s3) (fresh_storage ''root/t'')
                         [(0, R)] empty_world = Some (?s, w)"
    and fl: "files w = [cache_path example_s3 ''root/t'' 0 \<mapsto> encode_batch 0 R]"
    by blast
  have nob: "\<not> nextRecordID ?s \<le> 5" by (simp add: len)
  have scan: "scan_batches (recordBatchIDs ?s) (length (recordBatchIDs ?s)) 5 = 0"
    by (simp add: Let_def)
  have rd: "fst (Reader (S3_backing example_s3) (recordBatchPath (topicPath ?s) 0)
                  (w\<lparr>faults := []\<rparr>))
              = Inr \<lparr> data = encode_batch 0 R, pos = 0 \<rparr>"
    by (simp add: S3_backing_def S3_Reader_cached fl cache_path_def [symmetric])
  have z: "(of_nat (length R) :: uint32) = 0" by (simp add: len)
  have rec: "Record \<lparr> Header = new_header 0 (length R), recordIndex = [],
                      rdr = \<lparr> data = encode_batch 0 R, pos = 32 \<rparr> \<rparr> (ucast (5 - 0 :: uint64))
               = Inl OutOfBounds"
    by (simp add: Record_def z del: of_nat_numeral)
  have "fst (ReadRecord (S3_backing example_s3) ?s 5 (w\<lparr>faults := []\<rparr>)) = Inl OutOfBounds"
    by (simp only: ReadRecord_via [OF nob scan rd Parse_wrapped_count [OF z]] rec)
  then have a: "read_after example_s3 (fresh_storage ''root/t'') [(0, R)] empty_world 5
               = Some (Inl OutOfBounds)"
    unfolding read_after_def run by simp
  have b: "map_option fst
       (add_batches (S3_backing example_s3) (fresh_storage ''root/t'') [(0, R)] empty_world)
       = Some \<lparr> topicPath = ''root/t'', nextRecordID = 4294967296, recordBatchIDs = [0] \<rparr>"
    unfolding run by (simp add: len)
  have c: "\<not> (4294967296 :: uint64) \<le> 5" by simp
  have "read_after example_s3 (fresh_storage ''root/t'') [(0, R)] empty_world 5
     = Some (Inl OutOfBounds)
   \<and> map_option fst
       (add_batches (S3_backing example_s3) (fresh_storage ''root/t'') [(0, R)] empty_world)
       = Some \<lparr> topicPath = ''root/t'', nextRecordID = 4294967296, recordBatchIDs = [0] \<rparr>
   \<and> \<not> (4294967296 :: uint64) \<le> 5"
    using a b c by blast
  then show ?thesis unfolding R_def .
qed

section \<open>The sequence of batch IDs\<close>

lemma add_batches_S3_sorted:
  assumes "add_batches (S3_backing ss) s bs w = Some (s', w')"
    and "unat (nextRecordID s) + length (concat (map snd bs)) < 2 ^ 64"
    and "sorted_wrt (<) (recordBatchIDs s)"
    and "\<forall>c \<in> set (recordBatchIDs s).
           c \<le> nextRecordID s \<and> files w (cache_path ss (topicPath s) c) \<noteq> None"
  shows "sorted_wrt (<) (recordBatchIDs s')"
  using assms
proof (induction bs arbitrary: s w)
  case Nil
  then show ?case by simp
next
  case (Cons b rest)
  obtain now rs where b: "b = (now, rs)" by (cases b)
  obtain e s1 w1 where a: "AddRecordBatch (S3_backing ss) now s rs w = (e, s1, w1)"
    by (cases "AddRecordBatch (S3_backing ss) now s rs w")
  with Cons.prems(1) b have e: "e = None"
    and r: "add_batches (S3_backing ss) s1 rest w1 = Some (s', w')"
    by (auto split: option.splits)
  let ?p = "cache_path ss (topicPath s) (nextRecordID s)"
  from AddRecordBatch_S3_ok [OF a [unfolded e]]
  have new: "files w ?p = None"
    and w1: "files w1 = (files w)(?p \<mapsto> encode_batch now rs)"
    and s1: "s1 = s\<lparr> recordBatchIDs := recordBatchIDs s @ [nextRecordID s],
                     nextRecordID := nextRecordID s + of_nat (length rs) \<rparr>"
    by (simp_all add: cache_path_def)
  have bound: "unat (nextRecordID s) + length rs < 2 ^ 64"
    using Cons.prems(2) b by simp
  have un: "unat (nextRecordID s + of_nat (length rs)) = unat (nextRecordID s) + length rs"
    using bound by (rule unat_add_of_nat64)
  have le: "nextRecordID s \<le> nextRecordID s + of_nat (length rs)"
    using un by (simp add: word_le_nat_alt)
  have lt: "\<forall>c \<in> set (recordBatchIDs s). c < nextRecordID s"
  proof
    fix c assume c: "c \<in> set (recordBatchIDs s)"
    then have "c \<le> nextRecordID s" and "files w (cache_path ss (topicPath s) c) \<noteq> None"
      using Cons.prems(4) by blast+
    then have "c \<noteq> nextRecordID s" using new by auto
    then show "c < nextRecordID s" using \<open>c \<le> nextRecordID s\<close> by simp
  qed
  have p2: "unat (nextRecordID s1) + length (concat (map snd rest)) < 2 ^ 64"
    using Cons.prems(2) b un s1 by simp
  have p3: "sorted_wrt (<) (recordBatchIDs s1)"
    using Cons.prems(3) lt s1 by (simp add: sorted_wrt_append)
  have p4: "\<forall>c \<in> set (recordBatchIDs s1).
           c \<le> nextRecordID s1 \<and> files w1 (cache_path ss (topicPath s1) c) \<noteq> None"
  proof
    fix c assume c: "c \<in> set (recordBatchIDs s1)"
    show "c \<le> nextRecordID s1 \<and> files w1 (cache_path ss (topicPath s1) c) \<noteq> None"
    proof (cases "c = nextRecordID s")
      case True
      then show ?thesis using le s1 w1 by simp
    next
      case False
      then have "c \<in> set (recordBatchIDs s)" using c s1 by simp
      then have "c \<le> nextRecordID s" and "files w (cache_path ss (topicPath s) c) \<noteq> None"
        using Cons.prems(4) by blast+
      then show ?thesis using le s1 w1 by auto
    qed
  qed
  from Cons.IH [OF r p2 p3 p4] show ?case .
qed

text \<open>
  Claim C6, as amended. On a coordinator constructed over an empty bucket, after
  every sequence of calls that all succeeded (empty record lists included, fewer
  than \<open>2 ^ 64\<close> records in all), \<open>recordBatchIDs\<close> is strictly increasing, and
  batch ID 0 is present if and only if at least one call was made.
\<close>

theorem batch_ids_strictly_increasing:
  assumes "bucket w_init = []"
    and "NewStorage (S3_backing ss) rootDir topic w_init = (Inr s0, w0)"
    and "add_batches (S3_backing ss) s0 batches w0 = Some (s, w)"
    and "length (concat (map snd batches)) < 2 ^ 64"
  shows "sorted_wrt (<) (recordBatchIDs s)
       \<and> (0 \<in> set (recordBatchIDs s) \<longleftrightarrow> batches \<noteq> [])"
proof -
  have s0: "nextRecordID s0 = 0" "recordBatchIDs s0 = []"
    using NewStorage_S3_empty [OF assms(1,2)] by (simp_all add: fresh_storage_def)
  have a: "sorted_wrt (<) (recordBatchIDs s)"
    using add_batches_S3_sorted [OF assms(3)] s0 assms(4) by simp
  have ids: "recordBatchIDs s = map of_nat (batch_starts 0 (map snd batches))"
    using add_batches_S3 [OF assms(3)] s0 by simp
  have b: "0 \<in> set (recordBatchIDs s) \<longleftrightarrow> batches \<noteq> []"
    by (cases batches) (simp_all add: ids)
  show ?thesis using a b by simp
qed

text \<open>The hypotheses hold for the example run of two batches.\<close>

theorem batch_ids_strictly_increasing_witness:
  "bucket empty_world = []
   \<and> NewStorage (S3_backing example_s3) ''root'' ''t'' empty_world
       = (Inr (fresh_storage ''root/t''), empty_world)
   \<and> add_batches (S3_backing example_s3) (fresh_storage ''root/t'')
        [(1, [[0x41]]), (2, [[0x42, 0x43]])] empty_world \<noteq> None
   \<and> length (concat (map snd [(1 :: uint64, [[0x41 :: byte]]), (2, [[0x42, 0x43]])])) < 2 ^ 64
   \<and> sorted_wrt (<) (recordBatchIDs
        (fst (the (add_batches (S3_backing example_s3) (fresh_storage ''root/t'')
                     [(1, [[0x41]]), (2, [[0x42, 0x43]])] empty_world))))
   \<and> 0 \<in> set (recordBatchIDs
        (fst (the (add_batches (S3_backing example_s3) (fresh_storage ''root/t'')
                     [(1, [[0x41]]), (2, [[0x42, 0x43]])] empty_world))))"
proof -
  let ?bs = "[(1 :: uint64, [[0x41 :: byte]]), (2, [[0x42, 0x43]])]"
  let ?s = "\<lparr> topicPath = ''root/t'', nextRecordID = 2, recordBatchIDs = [0, 1] \<rparr>"
  have h1: "bucket empty_world = []" by (simp add: empty_world_def)
  note h2 = NewStorage_example
  obtain w where h3: "add_batches (S3_backing example_s3) (fresh_storage ''root/t'') ?bs empty_world
      = Some (?s, w)"
    using two_batches_example by blast
  have h4: "length (concat (map snd ?bs)) < 2 ^ 64" by simp
  from batch_ids_strictly_increasing [OF h1 h2 h3 h4]
  have "sorted_wrt (<) (recordBatchIDs ?s) \<and> 0 \<in> set (recordBatchIDs ?s)" by simp
  then show ?thesis unfolding h3 using h1 h2 h4 by simp
qed

text \<open>
  Claim C6 as stated fails after one call with the empty record list: batch ID 0
  is present, and no record exists (reading record 0 is out of bounds).
\<close>

theorem batch_ids_strictly_increasing_counterexample:
  "map_option fst
     (add_batches (S3_backing example_s3) (fresh_storage ''root/t'') [(0, [])] empty_world)
     = Some \<lparr> topicPath = ''root/t'', nextRecordID = 0, recordBatchIDs = [0] \<rparr>
   \<and> concat (map snd [(0 :: uint64, [] :: bytes list)]) = []
   \<and> read_after example_s3 (fresh_storage ''root/t'') [(0, [])] empty_world 0
       = Some (Inl OutOfBounds)"
proof -
  let ?s = "\<lparr> topicPath = ''root/t'', nextRecordID = of_nat (length ([] :: bytes list)),
              recordBatchIDs = [0] \<rparr>"
  from first_batch_example [of 0 "[]"]
  obtain w where run: "add_batches (S3_backing example_s3) (fresh_storage ''root/t'')
                         [(0, [])] empty_world = Some (?s, w)"
    by blast
  have "fst (ReadRecord (S3_backing example_s3) ?s 0 (w\<lparr>faults := []\<rparr>)) = Inl OutOfBounds"
    by (simp add: ReadRecord_out_of_bounds)
  then show ?thesis unfolding read_after_def run by simp
qed

section \<open>Closing the writer\<close>

lemma s3WriteCloser_Close_ok:
  assumes "s3WriteCloser_Close f (s3Upload key) w = (None, w')"
  shows "handles w' = remove1 f (handles w) \<and> map_of (bucket w') key = Some (file_contents f w)"
proof -
  obtain a w1 where f1: "fault w = (a, w1)" by (cases "fault w")
  obtain b w2 where f2: "fault w1 = (b, w2)" by (cases "fault w1")
  obtain c w3 where f3: "fault (w2\<lparr>bucket := put_object key (file_contents f w1) (bucket w2)\<rparr>) = (c, w3)"
    by (cases "fault (w2\<lparr>bucket := put_object key (file_contents f w1) (bucket w2)\<rparr>)")
  have m: "\<And>kvs. map_of (put_object key v kvs) key = Some v" for v
    subgoal for kvs by (induction kvs) auto done
  have e1: "files w1 = files w" "handles w1 = handles w"
    using fault_frame [of w] f1 by simp_all
  have e2: "handles w2 = handles w1"
    using fault_frame [of w1] f2 by simp_all
  have e3: "handles w3 = handles w2" "bucket w3 = put_object key (file_contents f w1) (bucket w2)"
    using fault_frame [of "w2\<lparr>bucket := put_object key (file_contents f w1) (bucket w2)\<rparr>"] f3
    by simp_all
  have fc: "file_contents f w1 = file_contents f w" by (simp add: file_contents_def e1)
  show ?thesis
    using assms f1 f2 f3 e1 e2 e3 m [of "file_contents f w" "bucket w2"]
    by (cases a; cases b; cases c)
       (auto simp: s3WriteCloser_Close_def file_Seek0_def s3Upload_def PutObject_def
          file_Close_def fc)
qed

text \<open>
  Claim C8, evaluated where the code departs from it. When the seek or the upload
  fails, \<open>Close\<close> of the deferred-upload writer returns the error at once: the
  handle of the cache file stays open and the file stays in place. When both
  succeed the handle is released.
\<close>

theorem Close_leaves_file_open_on_failure:
  "s3WriteCloser_Close ''cache/f'' (s3Upload ''f'') (open_file_world [False, True])
     = (Some BackingIO, open_file_world [])
   \<and> s3WriteCloser_Close ''cache/f'' (s3Upload ''f'') (open_file_world [True])
     = (Some BackingIO, open_file_world [])
   \<and> handles (open_file_world []) = [''cache/f'']
   \<and> files (open_file_world []) ''cache/f'' = Some [0x41]
   \<and> handles (snd (s3WriteCloser_Close ''cache/f'' (s3Upload ''f'') (open_file_world []))) = []"
  by (simp add: s3WriteCloser_Close_def file_Seek0_def s3Upload_def PutObject_def file_Close_def
      fault_def open_file_world_def file_contents_def)

lemma S3_Writer_upload_fails_world:
  "S3_Writer example_s3 ''root/t/000000000000.record-batch'' upload_fails_world
     = (Inr \<lparr> wc_Write = s3WriteCloser_Write ''cache/root/t/000000000000.record-batch'',
               wc_Close = s3WriteCloser_Close ''cache/root/t/000000000000.record-batch''
                            (s3Upload ''root/t/000000000000.record-batch'') \<rparr>,
        \<lparr> files = [''cache/root/t/000000000000.record-batch'' \<mapsto> []],
          handles = [''cache/root/t/000000000000.record-batch''], bucket = [],
          faults = [False, False, False, False, True] \<rparr>)"
  by (simp add: S3_Writer_def recordBatchCachePath_def example_s3_def filepath_Join_def
      Exists_def upload_fails_world_def createCacheFile_def fault_def Let_def)

lemma Write_upload_fails_world:
  "Write (s3WriteCloser_Write ''cache/root/t/000000000000.record-batch'') now [[0x41]]
     \<lparr> files = [''cache/root/t/000000000000.record-batch'' \<mapsto> []],
       handles = [''cache/root/t/000000000000.record-batch''], bucket = [],
       faults = [False, False, False, False, True] \<rparr>
   = (None,
      \<lparr> files = [''cache/root/t/000000000000.record-batch'' \<mapsto> encode_batch now [[0x41]]],
        handles = [''cache/root/t/000000000000.record-batch''], bucket = [],
        faults = [False, True] \<rparr>)"
  by (simp add: Write_as_write_records s3WriteCloser_Write_def file_Write_def fault_def
      encode_batch_def)

lemma Close_upload_fails_world:
  "s3WriteCloser_Close ''cache/root/t/000000000000.record-batch''
     (s3Upload ''root/t/000000000000.record-batch'')
     \<lparr> files = [''cache/root/t/000000000000.record-batch'' \<mapsto> c],
       handles = [''cache/root/t/000000000000.record-batch''], bucket = [],
       faults = [False, True] \<rparr>
   = (Some BackingIO,
      \<lparr> files = [''cache/root/t/000000000000.record-batch'' \<mapsto> c],
        handles = [''cache/root/t/000000000000.record-batch''], bucket = [], faults = [] \<rparr>)"
  by (simp add: s3WriteCloser_Close_def file_Seek0_def s3Upload_def PutObject_def fault_def)

text \<open>
  Claim C4, evaluated where the code departs from it. When the writer's \<open>Close\<close>
  fails (here the upload), \<open>AddRecordBatch\<close> returns \<^verbatim>\<open>nil\<close>, the batch ID is
  appended and \<open>nextRecordID\<close> is advanced, while the bucket holds no object.
\<close>

theorem AddRecordBatch_drops_Close_error:
  "fst (AddRecordBatch (S3_backing example_s3) 0 (fresh_storage ''root/t'') [[0x41]]
          upload_fails_world) = None
   \<and> fst (snd (AddRecordBatch (S3_backing example_s3) 0 (fresh_storage ''root/t'') [[0x41]]
          upload_fails_world))
       = \<lparr> topicPath = ''root/t'', nextRecordID = 1, recordBatchIDs = [0] \<rparr>
   \<and> bucket (snd (snd (AddRecordBatch (S3_backing example_s3) 0 (fresh_storage ''root/t'')
          [[0x41]] upload_fails_world))) = []
   \<and> handles (snd (snd (AddRecordBatch (S3_backing example_s3) 0 (fresh_storage ''root/t'')
          [[0x41]] upload_fails_world))) = [''cache/root/t/000000000000.record-batch'']
   \<and> fst (s3WriteCloser_Close ''cache/root/t/000000000000.record-batch''
            (s3Upload ''root/t/000000000000.record-batch'')
            \<lparr> files = [''cache/root/t/000000000000.record-batch'' \<mapsto> encode_batch 0 [[0x41]]],
              handles = [''cache/root/t/000000000000.record-batch''], bucket = [],
              faults = [False, True] \<rparr>)
       = Some BackingIO"
  by (simp add: AddRecordBatch_def Let_def fresh_storage_def recordBatchPath_0 S3_backing_def
      S3_Writer_upload_fails_world Write_upload_fails_world Close_upload_fails_world)

end
